theory Spec2Isabelle
  imports Main "HOL-Library.Multiset"
begin

section \<open>The round-robin PCB simulator of \<open>pcb_simulator.cpp\<close>\<close>

subsection \<open>Process control blocks\<close>

text \<open>
  \<open>struct PCB\<close>: the state is a \<open>std::string\<close> in the source and stays a string here.
  The fields are C++ \<open>int\<close>s; they are modelled as mathematical integers, and the input
  layer below admits only values of the 32-bit range. Inside the scheduler every computed
  value lies between \<open>0\<close> and \<open>total_work\<close>, so no arithmetic on the fields leaves the range.
\<close>

record PCB =
  pid :: int
  state :: string
  pc :: int
  total_work :: int

text \<open>The constructor \<open>PCB(process_id, work_units)\<close>.\<close>

definition mk_PCB :: "int \<Rightarrow> int \<Rightarrow> PCB" where
  "mk_PCB process_id work_units =
     \<lparr>pid = process_id, state = ''Ready'', pc = 0, total_work = work_units\<rparr>"

subsection \<open>Printing integers\<close>

text \<open>\<open>operator<<\<close> on an \<open>int\<close>: decimal digits, with a leading minus sign.\<close>

definition digit_char :: "nat \<Rightarrow> char" where
  "digit_char d = ''0123456789'' ! (d mod 10)"

fun show_nat :: "nat \<Rightarrow> string" where
  "show_nat n = (if n < 10 then [digit_char n] else show_nat (n div 10) @ [digit_char n])"

declare show_nat.simps [simp del]

definition show_int :: "int \<Rightarrow> string" where
  "show_int i = (if i < 0 then CHR ''-'' # show_nat (nat (- i)) else show_nat (nat i))"

subsection \<open>The trace emitter\<close>

definition pcb_line :: "PCB \<Rightarrow> string" where
  "pcb_line p = ''PID '' @ show_int (pid p) @ '': '' @ state p @ '', at pc '' @ show_int (pc p)"

definition header_line :: "int \<Rightarrow> string" where
  "header_line timeSlice = ''Interrupt '' @ show_int timeSlice @ '':''"

text \<open>
  \<open>printProcessStates(const std::vector<PCB>& pcbs, int timeSlice)\<close>. The vector is a
  reference parameter and \<open>std::cout\<close> is global, so the model takes both and returns both:
  the vector as the call leaves it and the lines of standard output with the new block
  appended. The sort works on the local copy \<open>sorted_pcbs\<close>. \<open>std::sort\<close> is not stable;
  \<open>sort_key\<close> is, and the two agree whenever the pids are distinct, which \<open>main\<close> ensures.
\<close>

definition printProcessStates :: "PCB list \<Rightarrow> int \<Rightarrow> string list \<Rightarrow> PCB list \<times> string list" where
  "printProcessStates pcbs timeSlice out =
     (let sorted_pcbs = sort_key pid pcbs
      in (pcbs, out @ header_line timeSlice # map pcb_line sorted_pcbs))"

subsection \<open>The completion check\<close>

fun allProcessesTerminated :: "PCB list \<Rightarrow> bool" where
  "allProcessesTerminated [] = True"
| "allProcessesTerminated (pcb # pcbs) =
     (if state pcb \<noteq> ''Terminated'' then False else allProcessesTerminated pcbs)"

subsection \<open>The scheduler loop\<close>

text \<open>
  The variables of \<open>kernelSimulator\<close>: the vector (mutated through the reference), the
  ready queue of indices into it (front of the queue = head of the list), the tick
  counter, and the lines written to standard output so far.
\<close>

record sim =
  pcbs :: "PCB list"
  readyQueue :: "nat list"
  currentTime :: int
  cout :: "string list"

text \<open>
  \<open>currentTime++\<close> on a 32-bit \<open>int\<close>. Signed overflow is undefined in C++; the model takes
  the two's-complement wrap-around. The counter is only printed, never tested.
\<close>

definition int32_wrap :: "int \<Rightarrow> int" where
  "int32_wrap x = (x + 2147483648) mod 4294967296 - 2147483648"

text \<open>
  Lines 64 to 77, on the dispatched record \<open>currentProcess\<close>: mark it Running, advance
  \<open>pc\<close> by \<open>std::min(timeQuantum, total_work - pc)\<close>, mark it Terminated when done.
\<close>

definition run_slice :: "int \<Rightarrow> PCB \<Rightarrow> PCB" where
  "run_slice timeQuantum currentProcess =
     (let p1 = currentProcess\<lparr>state := ''Running''\<rparr>;
          workDone = min timeQuantum (total_work p1 - pc p1);
          p2 = p1\<lparr>pc := pc p1 + workDone\<rparr>
      in if pc p2 \<ge> total_work p2 then p2\<lparr>state := ''Terminated''\<rparr> else p2)"

text \<open>
  Indexing the vector with an index outside it is undefined behaviour in C++; the model
  reports it as a fault instead of continuing.
\<close>

datatype fault = Index_out_of_range

text \<open>
  One iteration of the \<open>while\<close> body (lines 54 to 91). \<open>currentProcess\<close> is a reference
  into the vector: the slice is written back at its index before the trace is emitted, and
  the requeue test after the trace reads the record at that index again.
\<close>

definition tick :: "int \<Rightarrow> sim \<Rightarrow> fault + sim" where
  "tick timeQuantum s =
     (let t = int32_wrap (currentTime s + 1)
      in case readyQueue s of
           [] \<Rightarrow>
             (let (ps, out) = printProcessStates (pcbs s) t (cout s)
              in Inr (s\<lparr>pcbs := ps, currentTime := t, cout := out\<rparr>))
         | currentProcessIndex # q \<Rightarrow>
             if length (pcbs s) \<le> currentProcessIndex then Inl Index_out_of_range
             else
               (let cur = run_slice timeQuantum (pcbs s ! currentProcessIndex);
                    (ps, out) = printProcessStates ((pcbs s)[currentProcessIndex := cur]) t (cout s);
                    currentProcess = ps ! currentProcessIndex
                in if pc currentProcess < total_work currentProcess
                   then Inr \<lparr>pcbs = ps[currentProcessIndex := currentProcess\<lparr>state := ''Ready''\<rparr>],
                             readyQueue = q @ [currentProcessIndex],
                             currentTime = t, cout = out\<rparr>
                   else Inr \<lparr>pcbs = ps, readyQueue = q, currentTime = t, cout = out\<rparr>))"

text \<open>
  The \<open>while\<close> loop. It is not known in advance to end, so it is a partial function:
  \<open>None\<close> means that the loop never returns.
\<close>

partial_function (option) sched_loop :: "int \<Rightarrow> sim \<Rightarrow> (fault + sim) option" where
  "sched_loop timeQuantum s =
     (if allProcessesTerminated (pcbs s) then Some (Inr s)
      else case tick timeQuantum s of
             Inl e \<Rightarrow> Some (Inl e)
           | Inr s' \<Rightarrow> sched_loop timeQuantum s')"

declare sched_loop.simps [code]

text \<open>Lines 45 to 50: every index is pushed in vector order, the counter starts at 0.\<close>

definition init_sim :: "PCB list \<Rightarrow> string list \<Rightarrow> sim" where
  "init_sim ps out = \<lparr>pcbs = ps, readyQueue = [0..<length ps], currentTime = 0, cout = out\<rparr>"

definition kernelSimulator :: "PCB list \<Rightarrow> int \<Rightarrow> string list \<Rightarrow> (fault + sim) option" where
  "kernelSimulator ps timeQuantum out = sched_loop timeQuantum (init_sim ps out)"

subsection \<open>Reading the input\<close>

text \<open>
  Standard input is a text. The program reads it only through \<open>std::cin >> int\<close>, so \<open>main\<close>
  is modelled on the sequence of items that the successive extractions meet: a decimal
  numeral with its value, or anything else. The end of the list is the end of the input.
  An extraction succeeds on a numeral whose value fits a 32-bit \<open>int\<close>; on a numeral out of
  that range, on any other item and at the end of the input it fails. How a text gives
  rise to that sequence is \<open>cin_items\<close> below.
\<close>

datatype token = Numeral int | Junk

definition INT_MIN :: int where
  "INT_MIN = - 2147483648"

definition INT_MAX :: int where
  "INT_MAX = 2147483647"









fun extract_int :: "token list \<Rightarrow> (int \<times> token list) option" where
  "extract_int [] = None"
| "extract_int (Junk # rest) = None"
| "extract_int (Numeral v # rest) =
     (if INT_MIN \<le> v \<and> v \<le> INT_MAX then Some (v, rest) else None)"

text \<open>
  The \<open>for\<close> loop of \<open>main\<close> (lines 109 to 129), counting the remaining iterations down.
  It returns the diagnostic on failure and the vector on success.
\<close>

fun read_entries :: "nat \<Rightarrow> token list \<Rightarrow> PCB list \<Rightarrow> int set \<Rightarrow> string + PCB list" where
  "read_entries 0 inp ps pids = Inr ps"
| "read_entries (Suc n) inp ps pids =
     (case extract_int inp of
        None \<Rightarrow> Inl ''Error: Invalid input format for process data''
      | Some (process_id, inp1) \<Rightarrow>
          (case extract_int inp1 of
             None \<Rightarrow> Inl ''Error: Invalid input format for process data''
           | Some (work, inp2) \<Rightarrow>
               if work \<le> 0 then Inl (''Error: Invalid work units for PID '' @ show_int process_id)
               else if process_id \<in> pids
                 then Inl (''Error: Duplicate PID '' @ show_int process_id @ '' detected'')
               else read_entries n inp2 (ps @ [mk_PCB process_id work]) (insert process_id pids)))"

text \<open>What a run of the program leaves behind: exit status, standard output, standard error.\<close>

record outcome =
  exit_status :: int
  stdout :: "string list"
  stderr :: "string list"

definition failure :: "string \<Rightarrow> outcome" where
  "failure msg = \<lparr>exit_status = 1, stdout = [], stderr = [msg]\<rparr>"

definition main :: "token list \<Rightarrow> (fault + outcome) option" where
  "main inp =
     (case extract_int inp of
        None \<Rightarrow> Some (Inr (failure ''Error: Invalid input for number of processes''))
      | Some (numProcesses, inp1) \<Rightarrow>
          if numProcesses \<le> 0 then Some (Inr (failure ''Error: Invalid number of processes''))
          else
            (case read_entries (nat numProcesses) inp1 [] {} of
               Inl msg \<Rightarrow> Some (Inr (failure msg))
             | Inr ps \<Rightarrow>
                 (let timeQuantum = 2
                  in case kernelSimulator ps timeQuantum [] of
                       None \<Rightarrow> None
                     | Some (Inl e) \<Rightarrow> Some (Inl e)
                     | Some (Inr s) \<Rightarrow>
                         Some (Inr \<lparr>exit_status = 0,
                                    stdout = cout s @ [''All processes completed.''],
                                    stderr = []\<rparr>))))"

subsection \<open>Runs of the loop, tick by tick\<close>

text \<open>The state after \<open>n\<close> executions of the loop body, started in \<open>s\<close>.\<close>

fun ticks :: "nat \<Rightarrow> int \<Rightarrow> sim \<Rightarrow> fault + sim" where
  "ticks 0 timeQuantum s = Inr s"
| "ticks (Suc n) timeQuantum s =
     (case tick timeQuantum s of Inl e \<Rightarrow> Inl e | Inr s' \<Rightarrow> ticks n timeQuantum s')"

text \<open>
  The loop started in \<open>s\<close> executes its body exactly \<open>n\<close> times: the completion check
  fails before each of the \<open>n\<close> ticks and succeeds after the last one.
\<close>

fun loop_runs :: "int \<Rightarrow> sim \<Rightarrow> nat \<Rightarrow> bool" where
  "loop_runs timeQuantum s 0 = allProcessesTerminated (pcbs s)"
| "loop_runs timeQuantum s (Suc n) =
     (\<not> allProcessesTerminated (pcbs s) \<and>
      (case tick timeQuantum s of Inl e \<Rightarrow> False | Inr s' \<Rightarrow> loop_runs timeQuantum s' n))"

text \<open>
  The collection that the tick started in \<open>s\<close> passes to \<open>printProcessStates\<close>: the
  dispatched record after its slice and before the requeue step, every other record as
  it was.
\<close>

definition observed :: "int \<Rightarrow> sim \<Rightarrow> PCB list" where
  "observed timeQuantum s =
     (case readyQueue s of
        [] \<Rightarrow> pcbs s
      | i # q \<Rightarrow> (pcbs s)[i := run_slice timeQuantum (pcbs s ! i)])"

text \<open>The indices dequeued by the first \<open>n\<close> ticks from \<open>s\<close>, in order.\<close>

fun dispatches :: "nat \<Rightarrow> int \<Rightarrow> sim \<Rightarrow> nat list" where
  "dispatches 0 timeQuantum s = []"
| "dispatches (Suc n) timeQuantum s =
     (case readyQueue s of [] \<Rightarrow> [] | i # q \<Rightarrow> [i]) @
     (case tick timeQuantum s of Inl e \<Rightarrow> [] | Inr s' \<Rightarrow> dispatches n timeQuantum s')"

text \<open>
  The vector as \<open>main\<close> hands it to \<open>kernelSimulator\<close> on a valid input: at least one
  record, distinct pids, every record Ready at \<open>pc = 0\<close> with positive work.
\<close>

definition valid_pcbs :: "PCB list \<Rightarrow> bool" where
  "valid_pcbs ps \<longleftrightarrow>
     ps \<noteq> [] \<and> distinct (map pid ps) \<and>
     list_all (\<lambda>p. state p = ''Ready'' \<and> pc p = 0 \<and> 0 < total_work p) ps"

text \<open>
  The loop invariant at the completion check: the queue holds, without repetition,
  exactly the indices of the unfinished records; those are Ready with work left, the
  others are Terminated with \<open>pc = total_work\<close>.
\<close>

definition sched_inv :: "sim \<Rightarrow> bool" where
  "sched_inv s \<longleftrightarrow>
     distinct (readyQueue s) \<and>
     (\<forall>i \<in> set (readyQueue s). i < length (pcbs s)) \<and>
     (\<forall>i < length (pcbs s).
        0 < total_work (pcbs s ! i) \<and>
        (if i \<in> set (readyQueue s)
         then state (pcbs s ! i) = ''Ready'' \<and> 0 \<le> pc (pcbs s ! i) \<and>
              pc (pcbs s ! i) < total_work (pcbs s ! i)
         else state (pcbs s ! i) = ''Terminated'' \<and> pc (pcbs s ! i) = total_work (pcbs s ! i)))"

text \<open>The work still to be done, summed over the vector: the loop's variant.\<close>

definition remaining :: "PCB list \<Rightarrow> nat" where
  "remaining ps = sum_list (map (\<lambda>p. nat (total_work p - pc p)) ps)"

text \<open>
  A weaker invariant that needs no assumption on the vector: every queued index is inside
  the vector and every record that is not Terminated has its index in the queue.
\<close>

definition queue_covers :: "sim \<Rightarrow> bool" where
  "queue_covers s \<longleftrightarrow>
     (\<forall>i \<in> set (readyQueue s). i < length (pcbs s)) \<and>
     (\<forall>i < length (pcbs s). state (pcbs s ! i) \<noteq> ''Terminated'' \<longrightarrow> i \<in> set (readyQueue s))"

text \<open>
  The record invariant of the data model: Terminated exactly when the work is done, and
  the progress counter between 0 and \<open>total_work\<close>.
\<close>

definition record_ok :: "PCB \<Rightarrow> bool" where
  "record_ok p \<longleftrightarrow>
     (state p = ''Terminated'' \<longleftrightarrow> pc p = total_work p) \<and> 0 \<le> pc p \<and> pc p \<le> total_work p"

subsection \<open>The input contract\<close>

text \<open>
  The contract classifies a sequence of items, each an integer or malformed. Applied to the
  items that the extractions meet (\<open>cin_items\<close>) it describes what the program reads;
  applied to the whitespace-delimited tokens of the text (\<open>spec_items\<close>, below) it is the
  rule of the specification.

  The integer that a well-formed item at the front denotes; \<open>None\<close> when the item is
  malformed (not a numeral, or a numeral that no \<open>int\<close> can hold) or missing.
\<close>

definition tok_val :: "token list \<Rightarrow> int option" where
  "tok_val inp =
     (case inp of
        [] \<Rightarrow> None
      | Junk # _ \<Rightarrow> None
      | Numeral v # _ \<Rightarrow> if INT_MIN \<le> v \<and> v \<le> INT_MAX then Some v else None)"

text \<open>The first \<open>n\<close> pid/work token pairs of the input that follows the count.\<close>

fun token_pairs :: "nat \<Rightarrow> token list \<Rightarrow> (int option \<times> int option) list" where
  "token_pairs 0 inp = []"
| "token_pairs (Suc n) inp = (tok_val inp, tok_val (tl inp)) # token_pairs n (drop 2 inp)"








text \<open>The tokens of a list of (pid, work) entries.\<close>

definition entry_tokens :: "(int \<times> int) list \<Rightarrow> token list" where
  "entry_tokens es = concat (map (\<lambda>(p, w). [Numeral p, Numeral w]) es)"

text \<open>
  Two scheduler states that agree on the queue and, record by record, on state, progress
  and work; their pids (and their output so far) may differ.
\<close>

definition same_work :: "sim \<Rightarrow> sim \<Rightarrow> bool" where
  "same_work s1 s2 \<longleftrightarrow>
     readyQueue s1 = readyQueue s2 \<and>
     map state (pcbs s1) = map state (pcbs s2) \<and>
     map pc (pcbs s1) = map pc (pcbs s2) \<and>
     map total_work (pcbs s1) = map total_work (pcbs s2)"

text \<open>
  The collection traced by tick \<open>k + 1\<close> of the run that starts in \<open>s0\<close>: what that tick
  passes to \<open>printProcessStates\<close>.
\<close>

definition trace_at :: "int \<Rightarrow> sim \<Rightarrow> nat \<Rightarrow> PCB list" where
  "trace_at timeQuantum s0 k =
     (case ticks k timeQuantum s0 of Inl e \<Rightarrow> [] | Inr s \<Rightarrow> observed timeQuantum s)"

text \<open>The indices of the records whose state differs between two traces.\<close>

definition changed_states :: "PCB list \<Rightarrow> PCB list \<Rightarrow> nat list" where
  "changed_states prev cur = filter (\<lambda>j. state (prev ! j) \<noteq> state (cur ! j)) [0..<length cur]"

section \<open>Properties\<close>

subsection \<open>Basic facts about one tick\<close>

lemma allProcessesTerminated_iff:
  "allProcessesTerminated ps \<longleftrightarrow> (\<forall>p \<in> set ps. state p = ''Terminated'')"
  by (induction ps) auto

lemma printProcessStates_fst [simp]: "fst (printProcessStates ps t out) = ps"
  by (simp add: printProcessStates_def)

lemma run_slice_pid [simp]: "pid (run_slice tq p) = pid p"
  by (simp add: run_slice_def Let_def)

lemma run_slice_total_work [simp]: "total_work (run_slice tq p) = total_work p"
  by (simp add: run_slice_def Let_def)

lemma run_slice_pc: "pc (run_slice tq p) = pc p + min tq (total_work p - pc p)"
  by (simp add: run_slice_def Let_def)

lemma run_slice_state:
  "state (run_slice tq p) =
     (if total_work p \<le> pc p + min tq (total_work p - pc p) then ''Terminated'' else ''Running'')"
  by (simp add: run_slice_def Let_def)

lemma tick_Nil:
  "readyQueue s = [] \<Longrightarrow>
   tick tq s = Inr (s\<lparr>currentTime := int32_wrap (currentTime s + 1),
                      cout := snd (printProcessStates (pcbs s) (int32_wrap (currentTime s + 1)) (cout s))\<rparr>)"
  by (simp add: tick_def Let_def printProcessStates_def)

lemma tick_Cons:
  assumes "readyQueue s = i # q" and "i < length (pcbs s)"
  shows "tick tq s =
     Inr \<lparr>pcbs = (pcbs s)[i := (if pc (run_slice tq (pcbs s ! i)) < total_work (pcbs s ! i)
                                then (run_slice tq (pcbs s ! i))\<lparr>state := ''Ready''\<rparr>
                                else run_slice tq (pcbs s ! i))],
          readyQueue = (if pc (run_slice tq (pcbs s ! i)) < total_work (pcbs s ! i)
                        then q @ [i] else q),
          currentTime = int32_wrap (currentTime s + 1),
          cout = snd (printProcessStates (observed tq s) (int32_wrap (currentTime s + 1)) (cout s))\<rparr>"
  using assms by (simp add: tick_def Let_def printProcessStates_def observed_def)

lemma tick_fault:
  "readyQueue s = i # q \<Longrightarrow> length (pcbs s) \<le> i \<Longrightarrow> tick tq s = Inl Index_out_of_range"
  by (simp add: tick_def Let_def)

lemma ticks_snoc:
  "ticks (Suc n) tq s = (case ticks n tq s of Inl e \<Rightarrow> Inl e | Inr s' \<Rightarrow> tick tq s')"
proof (induction n arbitrary: s)
  case 0
  then show ?case by (simp split: sum.splits)
next
  case (Suc n)
  show ?case
  proof (cases "tick tq s")
    case (Inl e)
    then show ?thesis by simp
  next
    case (Inr s1)
    have a: "ticks (Suc (Suc n)) tq s = ticks (Suc n) tq s1" using Inr by simp
    have b: "ticks (Suc n) tq s = ticks n tq s1" using Inr by simp
    show ?thesis unfolding a b by (rule Suc.IH)
  qed
qed

lemma loop_runs_sched_loop:
  "loop_runs tq s n \<Longrightarrow> sched_loop tq s = Some (ticks n tq s)"
proof (induction n arbitrary: s)
  case 0
  then show ?case by (subst sched_loop.simps) simp
next
  case (Suc n)
  then show ?case by (subst sched_loop.simps) (auto split: sum.splits)
qed

lemma sched_inv_init:
  "valid_pcbs ps \<Longrightarrow> sched_inv (init_sim ps out)"
  by (auto simp: valid_pcbs_def sched_inv_def init_sim_def list_all_iff)

subsection \<open>The loop invariant\<close>

lemma sched_inv_frame:
  "pcbs s' = pcbs s \<Longrightarrow> readyQueue s' = readyQueue s \<Longrightarrow> sched_inv s' = sched_inv s"
  by (simp add: sched_inv_def)

lemma sched_inv_head:
  assumes "sched_inv s" and "readyQueue s = i # q"
  shows "i < length (pcbs s)" and "i \<notin> set q" and "distinct q"
    and "state (pcbs s ! i) = ''Ready''" and "0 \<le> pc (pcbs s ! i)"
    and "pc (pcbs s ! i) < total_work (pcbs s ! i)"
  using assms by (auto simp: sched_inv_def)

lemma sched_inv_nonempty:
  assumes "sched_inv s" and "\<not> allProcessesTerminated (pcbs s)"
  shows "readyQueue s \<noteq> []"
proof
  assume e: "readyQueue s = []"
  from assms(2) obtain p where p: "p \<in> set (pcbs s)" "state p \<noteq> ''Terminated''"
    by (auto simp: allProcessesTerminated_iff)
  then obtain i where "i < length (pcbs s)" "pcbs s ! i = p"
    by (auto simp: in_set_conv_nth)
  with assms(1) e p show False by (auto simp: sched_inv_def)
qed

lemma sched_inv_tick_Cons:
  assumes inv: "sched_inv s" and q: "readyQueue s = i # q" and tq: "0 < tq"
    and t: "tick tq s = Inr s'"
  shows "sched_inv s'"
proof -
  note h = sched_inv_head[OF inv q]
  let ?cur = "run_slice tq (pcbs s ! i)"
  have pc_cur: "pc ?cur = pc (pcbs s ! i) + min tq (total_work (pcbs s ! i) - pc (pcbs s ! i))"
    by (rule run_slice_pc)
  show ?thesis
  proof (cases "pc ?cur < total_work (pcbs s ! i)")
    case True
    with t tick_Cons[OF q h(1), of tq]
    have s': "pcbs s' = (pcbs s)[i := ?cur\<lparr>state := ''Ready''\<rparr>]" "readyQueue s' = q @ [i]"
      by auto
    show ?thesis
      unfolding sched_inv_def s'
      using inv q h True pc_cur tq
      by (auto simp: sched_inv_def nth_list_update)
  next
    case False
    with t tick_Cons[OF q h(1), of tq]
    have s': "pcbs s' = (pcbs s)[i := ?cur]" "readyQueue s' = q"
      by auto
    from False h pc_cur have eq: "pc ?cur = total_work (pcbs s ! i)" by (auto simp: min_def split: if_splits)
    have st: "state ?cur = ''Terminated''" using False pc_cur by (simp add: run_slice_state)
    show ?thesis
      unfolding sched_inv_def s'
      using inv q h eq st
      by (auto simp: sched_inv_def nth_list_update)
  qed
qed

lemma sched_inv_tick:
  assumes inv: "sched_inv s" and tq: "0 < tq"
  shows "\<exists>s'. tick tq s = Inr s' \<and> sched_inv s'"
proof (cases "readyQueue s")
  case Nil
  then show ?thesis using inv by (simp add: tick_Nil sched_inv_def)
next
  case (Cons i q)
  note h = sched_inv_head[OF inv Cons]
  from tick_Cons[OF Cons h(1), of tq] obtain s' where "tick tq s = Inr s'" by blast
  with sched_inv_tick_Cons[OF inv Cons tq] show ?thesis by blast
qed

lemma sched_inv_ticks:
  assumes "sched_inv s" and "0 < tq"
  shows "\<exists>s'. ticks n tq s = Inr s' \<and> sched_inv s'"
  using assms(1)
proof (induction n arbitrary: s)
  case 0
  then show ?case by simp
next
  case (Suc n)
  from sched_inv_tick[OF Suc.prems assms(2)] obtain s1 where "tick tq s = Inr s1" "sched_inv s1"
    by blast
  with Suc.IH[of s1] show ?case by simp
qed

lemma remaining_update:
  "i < length ps \<Longrightarrow>
   remaining (ps[i := p]) + nat (total_work (ps ! i) - pc (ps ! i)) =
   remaining ps + nat (total_work p - pc p)"
  by (induction ps arbitrary: i) (auto simp: remaining_def split: nat.splits)

lemma map_update_same:
  "i < length xs \<Longrightarrow> f p = f (xs ! i) \<Longrightarrow> map f (xs[i := p]) = map f xs"
  by (simp add: map_update list_update_same_conv)

lemma tick_static:
  assumes "tick tq s = Inr s'"
  shows "length (pcbs s') = length (pcbs s)"
    and "map pid (pcbs s') = map pid (pcbs s)"
    and "map total_work (pcbs s') = map total_work (pcbs s)"
proof -
  have "length (pcbs s') = length (pcbs s) \<and> map pid (pcbs s') = map pid (pcbs s) \<and>
        map total_work (pcbs s') = map total_work (pcbs s)"
  proof (cases "readyQueue s")
    case Nil
    with assms show ?thesis by (auto simp: tick_Nil)
  next
    case (Cons i q)
    show ?thesis
    proof (cases "i < length (pcbs s)")
      case True
      with assms tick_Cons[OF Cons True, of tq] show ?thesis
        by (auto simp: map_update_same)
    next
      case False
      with assms Cons show ?thesis by (simp add: tick_fault)
    qed
  qed
  then show "length (pcbs s') = length (pcbs s)"
    and "map pid (pcbs s') = map pid (pcbs s)"
    and "map total_work (pcbs s') = map total_work (pcbs s)" by simp_all
qed

lemma ticks_static:
  assumes "ticks n tq s = Inr s'"
  shows "length (pcbs s') = length (pcbs s)"
    and "map pid (pcbs s') = map pid (pcbs s)"
    and "map total_work (pcbs s') = map total_work (pcbs s)"
proof -
  have "length (pcbs s') = length (pcbs s) \<and> map pid (pcbs s') = map pid (pcbs s) \<and>
        map total_work (pcbs s') = map total_work (pcbs s)"
    using assms
  proof (induction n arbitrary: s)
    case 0
    then show ?case by simp
  next
    case (Suc n)
    then obtain s1 where s1: "tick tq s = Inr s1" "ticks n tq s1 = Inr s'"
      by (auto split: sum.splits)
    from Suc.IH[OF s1(2)] tick_static[OF s1(1)] show ?case by simp
  qed
  then show "length (pcbs s') = length (pcbs s)"
    and "map pid (pcbs s') = map pid (pcbs s)"
    and "map total_work (pcbs s') = map total_work (pcbs s)" by simp_all
qed

lemma tick_decreases:
  assumes inv: "sched_inv s" and tq: "0 < tq" and nt: "\<not> allProcessesTerminated (pcbs s)"
    and t: "tick tq s = Inr s'"
  shows "remaining (pcbs s') < remaining (pcbs s)"
proof -
  from sched_inv_nonempty[OF inv nt] obtain i q where q: "readyQueue s = i # q"
    by (cases "readyQueue s") auto
  note h = sched_inv_head[OF inv q]
  let ?p = "pcbs s ! i"
  let ?cur = "run_slice tq ?p"
  obtain p' where s': "pcbs s' = (pcbs s)[i := p']" and p': "pc p' = pc ?cur" "total_work p' = total_work ?p"
    using t tick_Cons[OF q h(1), of tq] by (cases "pc ?cur < total_work ?p") auto
  have "nat (total_work p' - pc p') < nat (total_work ?p - pc ?p)"
    using p' h tq by (simp add: run_slice_pc min_def)
  with remaining_update[OF h(1), of p'] show ?thesis unfolding s' by linarith
qed

lemma loop_terminates:
  assumes tq: "0 < tq"
  shows "sched_inv s \<Longrightarrow> \<exists>n. loop_runs tq s n"
proof (induction "remaining (pcbs s)" arbitrary: s rule: less_induct)
  case less
  show ?case
  proof (cases "allProcessesTerminated (pcbs s)")
    case True
    then have "loop_runs tq s 0" by simp
    then show ?thesis ..
  next
    case False
    from sched_inv_tick[OF less.prems tq] obtain s' where s': "tick tq s = Inr s'" "sched_inv s'"
      by blast
    from tick_decreases[OF less.prems tq False s'(1)] less.hyps[OF _ s'(2)]
    obtain n where "loop_runs tq s' n" by blast
    with False s' have "loop_runs tq s (Suc n)" by simp
    then show ?thesis ..
  qed
qed

lemma loop_runs_final:
  "loop_runs tq s n \<Longrightarrow> \<exists>s'. ticks n tq s = Inr s' \<and> allProcessesTerminated (pcbs s')"
  by (induction n arbitrary: s) (auto split: sum.splits)

lemma sched_inv_terminated:
  assumes "sched_inv s" and "allProcessesTerminated (pcbs s)" and "i < length (pcbs s)"
  shows "state (pcbs s ! i) = ''Terminated''" and "pc (pcbs s ! i) = total_work (pcbs s ! i)"
  using assms by (auto simp: sched_inv_def allProcessesTerminated_iff split: if_splits)

subsection \<open>Termination\<close>

lemma valid_run:
  assumes "valid_pcbs ps"
  shows "\<exists>n s'. loop_runs 2 (init_sim ps out) n \<and>
           kernelSimulator ps 2 out = Some (Inr s') \<and>
           length (pcbs s') = length ps \<and>
           (\<forall>i < length ps.
              state (pcbs s' ! i) = ''Terminated'' \<and>
              pc (pcbs s' ! i) = total_work (ps ! i) \<and>
              pid (pcbs s' ! i) = pid (ps ! i) \<and>
              total_work (pcbs s' ! i) = total_work (ps ! i))"
proof -
  let ?s = "init_sim ps out"
  have inv: "sched_inv ?s" using assms by (rule sched_inv_init)
  from loop_terminates[OF _ inv, of 2] obtain n where n: "loop_runs 2 ?s n" by auto
  from loop_runs_final[OF n] obtain s' where s': "ticks n 2 ?s = Inr s'"
    "allProcessesTerminated (pcbs s')" by blast
  from sched_inv_ticks[OF inv, of 2 n] s'(1) have inv': "sched_inv s'" by auto
  have ps: "pcbs ?s = ps" by (simp add: init_sim_def)
  note st = ticks_static[OF s'(1), unfolded ps]
  have run: "kernelSimulator ps 2 out = Some (Inr s')"
    using loop_runs_sched_loop[OF n] s'(1) by (simp add: kernelSimulator_def)
  have "state (pcbs s' ! i) = ''Terminated'' \<and> pc (pcbs s' ! i) = total_work (ps ! i) \<and>
        pid (pcbs s' ! i) = pid (ps ! i) \<and> total_work (pcbs s' ! i) = total_work (ps ! i)"
    if "i < length ps" for i
  proof -
    from that st(1) have i: "i < length (pcbs s')" by simp
    have "pid (pcbs s' ! i) = map pid (pcbs s') ! i" using i by simp
    also have "\<dots> = pid (ps ! i)" using that by (simp add: st(2))
    finally have a: "pid (pcbs s' ! i) = pid (ps ! i)" .
    have "total_work (pcbs s' ! i) = map total_work (pcbs s') ! i" using i by simp
    also have "\<dots> = total_work (ps ! i)" using that by (simp add: st(3))
    finally have b: "total_work (pcbs s' ! i) = total_work (ps ! i)" .
    from sched_inv_terminated[OF inv' s'(2) i] a b show ?thesis by simp
  qed
  with n run st(1) show ?thesis by blast
qed

text \<open>
  Claim C1. On every valid vector (at least one record, distinct pids, every record Ready
  at \<open>pc = 0\<close> with positive work) the scheduler loop with quantum 2 stops after finitely
  many ticks, \<open>kernelSimulator\<close> returns, and in the vector it leaves every record is
  Terminated with \<open>pc\<close> equal to its \<open>total_work\<close>; pids and work are those of the input.
\<close>

theorem C1_termination:
  assumes "valid_pcbs ps"
  shows "\<exists>n s'. loop_runs 2 (init_sim ps out) n \<and>
           kernelSimulator ps 2 out = Some (Inr s') \<and>
           length (pcbs s') = length ps \<and>
           (\<forall>i < length ps.
              state (pcbs s' ! i) = ''Terminated'' \<and>
              pc (pcbs s' ! i) = total_work (ps ! i) \<and>
              pid (pcbs s' ! i) = pid (ps ! i) \<and>
              total_work (pcbs s' ! i) = total_work (ps ! i))"
  using assms by (rule valid_run)

theorem C1_termination_witness:
  "valid_pcbs [mk_PCB 1 3, mk_PCB 2 2] \<and>
   (\<exists>n s'. loop_runs 2 (init_sim [mk_PCB 1 3, mk_PCB 2 2] []) n \<and>
      kernelSimulator [mk_PCB 1 3, mk_PCB 2 2] 2 [] = Some (Inr s') \<and>
      length (pcbs s') = 2 \<and>
      state (pcbs s' ! 0) = ''Terminated'' \<and> pc (pcbs s' ! 0) = 3 \<and>
      state (pcbs s' ! 1) = ''Terminated'' \<and> pc (pcbs s' ! 1) = 2)"
proof -
  have v: "valid_pcbs [mk_PCB 1 3, mk_PCB 2 2]"
    by (simp add: valid_pcbs_def mk_PCB_def)
  from C1_termination[OF v, of "[]"] obtain n s' where
    h: "loop_runs 2 (init_sim [mk_PCB 1 3, mk_PCB 2 2] []) n"
       "kernelSimulator [mk_PCB 1 3, mk_PCB 2 2] 2 [] = Some (Inr s')"
       "length (pcbs s') = length [mk_PCB 1 3, mk_PCB 2 2]"
       "\<forall>i < length [mk_PCB 1 3, mk_PCB 2 2].
              state (pcbs s' ! i) = ''Terminated'' \<and>
              pc (pcbs s' ! i) = total_work ([mk_PCB 1 3, mk_PCB 2 2] ! i) \<and>
              pid (pcbs s' ! i) = pid ([mk_PCB 1 3, mk_PCB 2 2] ! i) \<and>
              total_work (pcbs s' ! i) = total_work ([mk_PCB 1 3, mk_PCB 2 2] ! i)"
    by blast
  from h(4) have "state (pcbs s' ! 0) = ''Terminated'' \<and> pc (pcbs s' ! 0) = 3"
    by (simp add: mk_PCB_def)
  moreover from h(4) have "state (pcbs s' ! 1) = ''Terminated'' \<and> pc (pcbs s' ! 1) = 2"
    by (simp add: mk_PCB_def)
  ultimately show ?thesis using v h(1,2,3) by auto
qed

subsection \<open>Scenario A\<close>

text \<open>
  Claim C8. On the input \<open>2 1 3 2 2\<close> (two processes: pid 1 with 3 units of work, pid 2
  with 2) the loop executes its body exactly three times and the program exits with
  status 0 after writing three trace blocks: tick 1 shows pid 1 Running at pc 2 (and tick 2
  then shows it Ready again), tick 2 shows pid 2 Terminated at pc 2, tick 3 shows pid 1
  Terminated at pc 3; the last line is \<open>All processes completed.\<close>
\<close>

theorem C8_scenario_A:
  "loop_runs 2 (init_sim [mk_PCB 1 3, mk_PCB 2 2] []) 3 \<and>
   main [Numeral 2, Numeral 1, Numeral 3, Numeral 2, Numeral 2] =
     Some (Inr \<lparr>exit_status = 0,
                stdout =
                  [''Interrupt 1:'',
                   ''PID 1: Running, at pc 2'',
                   ''PID 2: Ready, at pc 0'',
                   ''Interrupt 2:'',
                   ''PID 1: Ready, at pc 2'',
                   ''PID 2: Terminated, at pc 2'',
                   ''Interrupt 3:'',
                   ''PID 1: Terminated, at pc 3'',
                   ''PID 2: Terminated, at pc 2'',
                   ''All processes completed.''],
                stderr = []\<rparr>)"
  by code_simp

subsection \<open>The empty-queue branch\<close>

lemma queue_covers_init: "queue_covers (init_sim ps out)"
  by (simp add: queue_covers_def init_sim_def)

lemma queue_covers_tick:
  assumes c: "queue_covers s"
  shows "\<exists>s'. tick tq s = Inr s' \<and> queue_covers s'"
proof (cases "readyQueue s")
  case Nil
  then show ?thesis using c by (simp add: tick_Nil queue_covers_def)
next
  case (Cons i q)
  with c have i: "i < length (pcbs s)" by (simp add: queue_covers_def)
  let ?cur = "run_slice tq (pcbs s ! i)"
  show ?thesis
  proof (cases "pc ?cur < total_work (pcbs s ! i)")
    case True
    then show ?thesis
      using c Cons i by (auto simp: tick_Cons[OF Cons i] queue_covers_def nth_list_update)
  next
    case False
    then have "state ?cur = ''Terminated''" by (simp add: run_slice_state run_slice_pc)
    with False show ?thesis
      using c Cons i by (auto simp: tick_Cons[OF Cons i] queue_covers_def nth_list_update)
  qed
qed

lemma queue_covers_ticks:
  "queue_covers s \<Longrightarrow> \<exists>s'. ticks n tq s = Inr s' \<and> queue_covers s'"
proof (induction n arbitrary: s)
  case 0
  then show ?case by simp
next
  case (Suc n)
  from queue_covers_tick[OF Suc.prems, of tq] obtain s1 where "tick tq s = Inr s1" "queue_covers s1"
    by blast
  with Suc.IH[of s1] show ?case by simp
qed

lemma queue_covers_nonempty:
  assumes "queue_covers s" and "\<not> allProcessesTerminated (pcbs s)"
  shows "\<exists>i q. readyQueue s = i # q \<and> i < length (pcbs s)"
proof -
  from assms(2) obtain p where p: "p \<in> set (pcbs s)" "state p \<noteq> ''Terminated''"
    by (auto simp: allProcessesTerminated_iff)
  then obtain j where "j < length (pcbs s)" "pcbs s ! j = p"
    by (auto simp: in_set_conv_nth)
  with assms(1) p have "j \<in> set (readyQueue s)" by (auto simp: queue_covers_def)
  then obtain i q where "readyQueue s = i # q" by (cases "readyQueue s") auto
  with assms(1) show ?thesis by (auto simp: queue_covers_def)
qed

text \<open>
  Claim C9. After any number of ticks from the initial state of \<open>kernelSimulator\<close>, for any
  vector and any quantum, no fault has occurred, and whenever some record is not Terminated
  (so the loop body runs again) the ready queue is non-empty and its head is a valid index:
  the tick dispatches exactly that one process, and the empty-queue branch is not taken.
\<close>

theorem C9_empty_queue_unreachable:
  "\<exists>s. ticks n timeQuantum (init_sim ps out) = Inr s \<and>
        (\<not> allProcessesTerminated (pcbs s) \<longrightarrow>
           (\<exists>i q. readyQueue s = i # q \<and> i < length (pcbs s) \<and>
                  dispatches 1 timeQuantum s = [i]))"
proof -
  from queue_covers_ticks[OF queue_covers_init, of n timeQuantum ps out]
  obtain s where s: "ticks n timeQuantum (init_sim ps out) = Inr s" "queue_covers s" by blast
  have "\<exists>i q. readyQueue s = i # q \<and> i < length (pcbs s) \<and> dispatches 1 timeQuantum s = [i]"
    if "\<not> allProcessesTerminated (pcbs s)"
  proof -
    from queue_covers_nonempty[OF s(2) that] obtain i q where
      iq: "readyQueue s = i # q" "i < length (pcbs s)" by blast
    then have "dispatches 1 timeQuantum s = [i]"
      by (simp add: tick_Cons[OF iq])
    with iq show ?thesis by blast
  qed
  with s(1) show ?thesis by blast
qed

theorem C9_empty_queue_unreachable_witness:
  "\<exists>s. ticks 1 2 (init_sim [mk_PCB 1 3, mk_PCB 2 2] []) = Inr s \<and>
        \<not> allProcessesTerminated (pcbs s) \<and>
        (\<exists>i q. readyQueue s = i # q \<and> i < length (pcbs s) \<and> dispatches 1 2 s = [i])"
proof -
  from C9_empty_queue_unreachable[of 1 2 "[mk_PCB 1 3, mk_PCB 2 2]" "[]"]
  obtain s where s: "ticks 1 2 (init_sim [mk_PCB 1 3, mk_PCB 2 2] []) = Inr s"
    "\<not> allProcessesTerminated (pcbs s) \<longrightarrow>
       (\<exists>i q. readyQueue s = i # q \<and> i < length (pcbs s) \<and> dispatches 1 2 s = [i])"
    by blast
  from s(1) have "\<not> allProcessesTerminated (pcbs s)"
    by (auto simp: init_sim_def tick_def mk_PCB_def run_slice_def Let_def printProcessStates_def)
  with s show ?thesis by blast
qed

subsection \<open>The tick-count law\<close>

lemma ceil_div_step:
  fixes x tq :: int
  assumes "0 < x" and "0 < tq"
  shows "1 + (x - min tq x + tq - 1) div tq = (x + tq - 1) div tq"
proof (cases "x \<le> tq")
  case True
  then have "min tq x = x" by simp
  moreover have "(tq - 1) div tq = 0" using assms by simp
  moreover have "(x + tq - 1) div tq = 1"
  proof -
    have "(x - 1 + tq) div tq = (x - 1) div tq + 1" using assms by (intro div_add_self2) simp
    moreover have "(x - 1) div tq = 0" using assms True by simp
    ultimately show ?thesis by (simp add: algebra_simps)
  qed
  ultimately show ?thesis by simp
next
  case False
  then have m: "min tq x = tq" by simp
  have "(x - 1 + tq) div tq = (x - 1) div tq + 1" using assms by (intro div_add_self2) simp
  then show ?thesis unfolding m by (simp add: algebra_simps)
qed

lemma dispatch_count:
  assumes tq: "0 < tq"
  shows "sched_inv s \<Longrightarrow> loop_runs tq s n \<Longrightarrow> i < length (pcbs s) \<Longrightarrow>
         int (count_list (dispatches n tq s) i) =
           (total_work (pcbs s ! i) - pc (pcbs s ! i) + tq - 1) div tq"
proof (induction n arbitrary: s)
  case 0
  then have "pc (pcbs s ! i) = total_work (pcbs s ! i)"
    using sched_inv_terminated(2)[of s i] by simp
  then show ?case using tq by simp
next
  case (Suc n)
  from Suc.prems(2) obtain s' where nt: "\<not> allProcessesTerminated (pcbs s)"
    and s': "tick tq s = Inr s'" and run': "loop_runs tq s' n"
    by (auto split: sum.splits)
  from sched_inv_nonempty[OF Suc.prems(1) nt] obtain j q where q: "readyQueue s = j # q"
    by (cases "readyQueue s") auto
  note h = sched_inv_head[OF Suc.prems(1) q]
  have inv': "sched_inv s'" by (rule sched_inv_tick_Cons[OF Suc.prems(1) q tq s'])
  have len: "length (pcbs s') = length (pcbs s)" by (rule tick_static(1)[OF s'])
  let ?cur = "run_slice tq (pcbs s ! j)"
  obtain p' where ps': "pcbs s' = (pcbs s)[j := p']" and p': "pc p' = pc ?cur"
    "total_work p' = total_work (pcbs s ! j)"
    using s' tick_Cons[OF q h(1), of tq] by (cases "pc ?cur < total_work (pcbs s ! j)") auto
  have ih: "int (count_list (dispatches n tq s') i) =
      (total_work (pcbs s' ! i) - pc (pcbs s' ! i) + tq - 1) div tq"
    using Suc.IH[OF inv' run'] Suc.prems(3) len by simp
  have d: "dispatches (Suc n) tq s = j # dispatches n tq s'" using q s' by simp
  show ?case
  proof (cases "i = j")
    case True
    let ?x = "total_work (pcbs s ! j) - pc (pcbs s ! j)"
    have x: "0 < ?x" using h by simp
    have "total_work (pcbs s' ! i) - pc (pcbs s' ! i) = ?x - min tq ?x"
      using True h(1) ps' p' by (simp add: run_slice_pc)
    with ih have "int (count_list (dispatches n tq s') i) = (?x - min tq ?x + tq - 1) div tq"
      by simp
    with ceil_div_step[OF x tq] d True show ?thesis by simp
  next
    case False
    with ps' have "pcbs s' ! i = pcbs s ! i" by simp
    with ih d False show ?thesis by simp
  qed
qed

text \<open>
  Claim C2. On every valid vector, \<open>kernelSimulator\<close> with quantum 2 returns the state that
  \<open>n\<close> ticks lead to, for the number \<open>n\<close> of ticks after which the loop stops, and over
  these \<open>n\<close> ticks, the whole run, the process at each index is dequeued and dispatched on
  exactly \<open>(w + 1) div 2\<close> ticks, the ceiling of half its \<open>total_work\<close> \<open>w\<close>. The dispatches of
  different processes interleave in the list \<open>dispatches\<close>.
\<close>

theorem C2_tick_count:
  assumes "valid_pcbs ps"
  shows "\<exists>n s'. loop_runs 2 (init_sim ps out) n \<and>
           ticks n 2 (init_sim ps out) = Inr s' \<and>
           kernelSimulator ps 2 out = Some (Inr s') \<and>
           (\<forall>i < length ps.
              int (count_list (dispatches n 2 (init_sim ps out)) i) =
                (total_work (ps ! i) + 1) div 2)"
proof -
  let ?s = "init_sim ps out"
  have inv: "sched_inv ?s" using assms by (rule sched_inv_init)
  from loop_terminates[OF _ inv, of 2] obtain n where n: "loop_runs 2 ?s n" by auto
  from loop_runs_final[OF n] obtain s' where s': "ticks n 2 ?s = Inr s'" by blast
  have run: "kernelSimulator ps 2 out = Some (Inr s')"
    using loop_runs_sched_loop[OF n] s' by (simp add: kernelSimulator_def)
  have "int (count_list (dispatches n 2 ?s) i) = (total_work (ps ! i) + 1) div 2"
    if "i < length ps" for i
  proof -
    from that have i: "i < length (pcbs ?s)" by (simp add: init_sim_def)
    from assms that have "pc (ps ! i) = 0" by (simp add: valid_pcbs_def list_all_length)
    with dispatch_count[OF _ inv n i] show ?thesis by (simp add: init_sim_def)
  qed
  with n s' run show ?thesis by blast
qed

theorem C2_tick_count_witness:
  "valid_pcbs [mk_PCB 1 3, mk_PCB 2 2] \<and>
   (\<exists>n s'. loop_runs 2 (init_sim [mk_PCB 1 3, mk_PCB 2 2] []) n \<and>
        ticks n 2 (init_sim [mk_PCB 1 3, mk_PCB 2 2] []) = Inr s' \<and>
        kernelSimulator [mk_PCB 1 3, mk_PCB 2 2] 2 [] = Some (Inr s') \<and>
        count_list (dispatches n 2 (init_sim [mk_PCB 1 3, mk_PCB 2 2] [])) 0 = 2 \<and>
        count_list (dispatches n 2 (init_sim [mk_PCB 1 3, mk_PCB 2 2] [])) 1 = 1)"
proof -
  have v: "valid_pcbs [mk_PCB 1 3, mk_PCB 2 2]"
    by (simp add: valid_pcbs_def mk_PCB_def)
  from C2_tick_count[OF v, of "[]"] obtain n s' where
    n: "loop_runs 2 (init_sim [mk_PCB 1 3, mk_PCB 2 2] []) n"
    and t: "ticks n 2 (init_sim [mk_PCB 1 3, mk_PCB 2 2] []) = Inr s'"
    and k: "kernelSimulator [mk_PCB 1 3, mk_PCB 2 2] 2 [] = Some (Inr s')"
    and c: "\<forall>i < length [mk_PCB 1 3, mk_PCB 2 2].
              int (count_list (dispatches n 2 (init_sim [mk_PCB 1 3, mk_PCB 2 2] [])) i) =
                (total_work ([mk_PCB 1 3, mk_PCB 2 2] ! i) + 1) div 2"
    by blast
  from c have "int (count_list (dispatches n 2 (init_sim [mk_PCB 1 3, mk_PCB 2 2] [])) 0) = 2"
    by (simp add: mk_PCB_def)
  moreover from c have "int (count_list (dispatches n 2 (init_sim [mk_PCB 1 3, mk_PCB 2 2] [])) 1) = 1"
    by (simp add: mk_PCB_def)
  ultimately show ?thesis using v n t k by auto
qed

subsection \<open>The record invariant at every observation\<close>

lemma sched_inv_record_ok:
  assumes "sched_inv s"
  shows "list_all record_ok (pcbs s)"
  unfolding list_all_length
proof (intro allI impI)
  fix i assume "i < length (pcbs s)"
  with assms show "record_ok (pcbs s ! i)"
    by (auto simp: sched_inv_def record_ok_def split: if_splits)
qed

lemma observed_length [simp]: "length (observed tq s) = length (pcbs s)"
  by (simp add: observed_def split: list.splits)

lemma run_slice_record_ok:
  assumes "0 \<le> pc p" and "pc p < total_work p" and "0 < tq"
  shows "record_ok (run_slice tq p)" and "pc p < pc (run_slice tq p)"
  using assms by (auto simp: record_ok_def run_slice_pc run_slice_state min_def)

lemma sched_inv_observed_ok:
  assumes inv: "sched_inv s" and tq: "0 < tq"
  shows "list_all record_ok (observed tq s)"
proof (cases "readyQueue s")
  case Nil
  then show ?thesis using sched_inv_record_ok[OF inv] by (simp add: observed_def)
next
  case (Cons i q)
  note h = sched_inv_head[OF inv Cons]
  have ok: "record_ok (run_slice tq (pcbs s ! i))"
    by (rule run_slice_record_ok(1)[OF h(5,6) tq])
  show ?thesis
    unfolding list_all_length
  proof (intro allI impI)
    fix j assume "j < length (observed tq s)"
    then have j: "j < length (pcbs s)" by simp
    with sched_inv_record_ok[OF inv] have "record_ok (pcbs s ! j)" by (simp add: list_all_length)
    with ok j Cons h(1) show "record_ok (observed tq s ! j)"
      by (auto simp: observed_def nth_list_update)
  qed
qed

lemma observed_pc_ge:
  assumes inv: "sched_inv s" and tq: "0 < tq" and j: "j < length (pcbs s)"
  shows "pc (pcbs s ! j) \<le> pc (observed tq s ! j)"
proof (cases "readyQueue s")
  case Nil
  then show ?thesis by (simp add: observed_def)
next
  case (Cons i q)
  note h = sched_inv_head[OF inv Cons]
  from run_slice_record_ok(2)[OF h(5,6) tq] j Cons h(1) show ?thesis
    by (auto simp: observed_def nth_list_update)
qed

lemma tick_pc_observed:
  assumes inv: "sched_inv s" and t: "tick tq s = Inr s'" and j: "j < length (pcbs s)"
  shows "pc (pcbs s' ! j) = pc (observed tq s ! j)"
proof (cases "readyQueue s")
  case Nil
  with t show ?thesis by (auto simp: tick_Nil observed_def)
next
  case (Cons i q)
  note h = sched_inv_head[OF inv Cons]
  from t tick_Cons[OF Cons h(1), of tq] j Cons h(1) show ?thesis
    by (auto simp: observed_def nth_list_update)
qed

lemma ticks_pc_mono:
  assumes tq: "0 < tq"
  shows "sched_inv s \<Longrightarrow> ticks k tq s = Inr s' \<Longrightarrow> j < length (pcbs s) \<Longrightarrow>
         pc (pcbs s ! j) \<le> pc (pcbs s' ! j) \<and>
         pc (observed tq s ! j) \<le> pc (observed tq s' ! j) \<and>
         (0 < k \<longrightarrow> pc (observed tq s ! j) \<le> pc (pcbs s' ! j))"
proof (induction k arbitrary: s)
  case 0
  then show ?case by simp
next
  case (Suc k)
  from Suc.prems(2) obtain s1 where s1: "tick tq s = Inr s1" "ticks k tq s1 = Inr s'"
    by (auto split: sum.splits)
  from sched_inv_tick[OF Suc.prems(1) tq] s1(1) have inv1: "sched_inv s1" by auto
  have len: "length (pcbs s1) = length (pcbs s)" by (rule tick_static(1)[OF s1(1)])
  from Suc.IH[OF inv1 s1(2)] Suc.prems(3) len
  have ih: "pc (pcbs s1 ! j) \<le> pc (pcbs s' ! j)"
    "pc (observed tq s1 ! j) \<le> pc (observed tq s' ! j)" by simp_all
  have a: "pc (pcbs s1 ! j) = pc (observed tq s ! j)"
    by (rule tick_pc_observed[OF Suc.prems(1) s1(1) Suc.prems(3)])
  have b: "pc (pcbs s ! j) \<le> pc (observed tq s ! j)"
    by (rule observed_pc_ge[OF Suc.prems(1) tq Suc.prems(3)])
  have c: "pc (pcbs s1 ! j) \<le> pc (observed tq s1 ! j)"
    using observed_pc_ge[OF inv1 tq, of j] Suc.prems(3) len by simp
  from ih a b c show ?case by simp
qed

text \<open>
  Claim C3. In a run on a valid vector with quantum 2, let \<open>s\<close> be the state at any
  completion check (after \<open>n\<close> ticks) and \<open>s'\<close> the state \<open>k\<close> ticks later. Every record of
  the vector at the check, and every record of the collection that the tick from \<open>s\<close> hands
  to the trace emitter, is Terminated exactly when \<open>pc = total_work\<close> and has
  \<open>0 \<le> pc \<le> total_work\<close>. The \<open>pc\<close> of each record never decreases: not from the check to
  the trace of the same tick, not from that trace to a later check, and not from one
  check or trace to a later one.
\<close>

theorem C3_record_invariant:
  assumes "valid_pcbs ps"
    and "ticks n 2 (init_sim ps out) = Inr s"
    and "ticks k 2 s = Inr s'"
  shows "list_all record_ok (pcbs s) \<and> list_all record_ok (observed 2 s) \<and>
         (\<forall>i < length ps.
            pc (pcbs s ! i) \<le> pc (observed 2 s ! i) \<and>
            pc (pcbs s ! i) \<le> pc (pcbs s' ! i) \<and>
            pc (observed 2 s ! i) \<le> pc (observed 2 s' ! i) \<and>
            (0 < k \<longrightarrow> pc (observed 2 s ! i) \<le> pc (pcbs s' ! i)))"
proof -
  have inv0: "sched_inv (init_sim ps out)" using assms(1) by (rule sched_inv_init)
  from sched_inv_ticks[OF inv0, of 2 n] assms(2) have inv: "sched_inv s" by auto
  have len: "length (pcbs s) = length ps"
    using ticks_static(1)[OF assms(2)] by (simp add: init_sim_def)
  have "pc (pcbs s ! i) \<le> pc (observed 2 s ! i) \<and>
        pc (pcbs s ! i) \<le> pc (pcbs s' ! i) \<and>
        pc (observed 2 s ! i) \<le> pc (observed 2 s' ! i) \<and>
        (0 < k \<longrightarrow> pc (observed 2 s ! i) \<le> pc (pcbs s' ! i))" if "i < length ps" for i
  proof -
    from that len have i: "i < length (pcbs s)" by simp
    from ticks_pc_mono[OF _ inv assms(3) i] observed_pc_ge[OF inv _ i, of 2]
    show ?thesis by simp
  qed
  with sched_inv_record_ok[OF inv] sched_inv_observed_ok[OF inv, of 2] show ?thesis by simp
qed

theorem C3_record_invariant_witness:
  "valid_pcbs [mk_PCB 1 3, mk_PCB 2 2] \<and>
   (\<exists>s s'. ticks 1 2 (init_sim [mk_PCB 1 3, mk_PCB 2 2] []) = Inr s \<and>
      ticks 2 2 s = Inr s' \<and>
      list_all record_ok (pcbs s) \<and> list_all record_ok (observed 2 s) \<and>
      map pc (pcbs s) = [2, 0] \<and> map pc (observed 2 s) = [2, 2] \<and>
      map pc (pcbs s') = [3, 2] \<and>
      (\<forall>i < 2. pc (pcbs s ! i) \<le> pc (observed 2 s ! i) \<and>
                pc (pcbs s ! i) \<le> pc (pcbs s' ! i) \<and>
                pc (observed 2 s ! i) \<le> pc (observed 2 s' ! i) \<and>
                pc (observed 2 s ! i) \<le> pc (pcbs s' ! i)))"
proof -
  let ?A = "[mk_PCB 1 3, mk_PCB 2 2]"
  have v: "valid_pcbs ?A"
    by (simp add: valid_pcbs_def mk_PCB_def)
  have two: "(0::int) < 2" by simp
  obtain s where s: "ticks 1 2 (init_sim ?A []) = Inr s" and inv: "sched_inv s"
    using sched_inv_ticks[OF sched_inv_init[OF v] two, where n = 1] by blast
  obtain s' where s': "ticks 2 2 s = Inr s'"
    using sched_inv_ticks[OF inv two, where n = 2] by blast
  have e1: "map pc (pcbs s) = [2, 0] \<and> map pc (observed 2 s) = [2, 2]"
    using s by (auto simp: init_sim_def tick_def mk_PCB_def run_slice_def Let_def
        printProcessStates_def observed_def)
  have e2: "map pc (pcbs s') = [3, 2]"
    using s s' by (auto simp: init_sim_def tick_def mk_PCB_def run_slice_def Let_def
        printProcessStates_def numeral_2_eq_2)
  from C3_record_invariant[OF v s s'] v s s' e1 e2 show ?thesis by auto
qed

subsection \<open>The trace block\<close>

lemma filter_distinct_key:
  "distinct (map f xs) \<Longrightarrow> k \<in> set xs \<Longrightarrow> filter (\<lambda>x. f k = f x) xs = [k]"
proof (induction xs)
  case Nil
  then show ?case by simp
next
  case (Cons a xs)
  show ?case
  proof (cases "k = a")
    case True
    from Cons.prems(1) have "\<forall>x \<in> set xs. f a \<noteq> f x" by auto
    then have "filter (\<lambda>x. f a = f x) xs = []" by (simp add: filter_empty_conv)
    with True show ?thesis by simp
  next
    case False
    with Cons.prems have k: "k \<in> set xs" by simp
    then have "f k \<in> f ` set xs" by simp
    with Cons.prems(1) have "f k \<noteq> f a" by auto
    with Cons k show ?thesis by simp
  qed
qed

lemma sort_key_perm_distinct:
  assumes d: "distinct (map f xs)" and m: "mset ys = mset xs"
  shows "sort_key f ys = sort_key f xs"
proof (rule properties_for_sort_key)
  show "mset (sort_key f xs) = mset ys" using m by simp
  show "sorted (map f (sort_key f xs))" by simp
  fix k assume "k \<in> set (sort_key f xs)"
  then have kx: "k \<in> set xs" by simp
  have ky: "k \<in> set ys" using kx m by (metis set_mset_mset)
  have "mset (map f ys) = mset (map f xs)" using m by (metis mset_map)
  with d have dy: "distinct (map f ys)" by (metis mset_eq_imp_distinct_iff)
  have ds: "distinct (map f (sort_key f xs))" using d by (simp add: distinct_map)
  have "filter (\<lambda>x. f k = f x) (sort_key f xs) = [k]"
    using ds kx by (intro filter_distinct_key) simp_all
  moreover have "filter (\<lambda>x. f k = f x) ys = [k]"
    using dy ky by (rule filter_distinct_key)
  ultimately show "filter (\<lambda>x. f k = f x) (sort_key f xs) = filter (\<lambda>x. f k = f x) ys" by simp
qed

lemma tick_cout:
  assumes "tick tq s = Inr s'"
  shows "cout s' = snd (printProcessStates (observed tq s) (int32_wrap (currentTime s + 1)) (cout s))"
proof (cases "readyQueue s")
  case Nil
  with assms show ?thesis by (auto simp: tick_Nil observed_def)
next
  case (Cons i q)
  show ?thesis
  proof (cases "i < length (pcbs s)")
    case True
    from assms tick_Cons[OF Cons True, of tq] show ?thesis by auto
  next
    case False
    with assms Cons show ?thesis by (simp add: tick_fault)
  qed
qed

text \<open>
  Claim C7. A call of the trace emitter leaves the vector as it was and appends one
  block to the output: the header line, then one line per record of the vector, in
  ascending order of pid (the sorted sequence is a permutation of the vector). With
  distinct pids the block depends only on which records the vector holds, not on their
  order, and the ready queue is not an input of the emitter. Every tick that completes
  appends exactly this block for the collection it observed.
\<close>

theorem C7_trace_block:
  "fst (printProcessStates ps t out) = ps \<and>
   snd (printProcessStates ps t out) = out @ header_line t # map pcb_line (sort_key pid ps) \<and>
   length (map pcb_line (sort_key pid ps)) = length ps \<and>
   sorted (map pid (sort_key pid ps)) \<and>
   mset (sort_key pid ps) = mset ps \<and>
   (distinct (map pid ps) \<and> mset ps' = mset ps \<longrightarrow>
      snd (printProcessStates ps' t out) = snd (printProcessStates ps t out)) \<and>
   (tick timeQuantum s = Inr s' \<longrightarrow>
      length (observed timeQuantum s) = length (pcbs s) \<and>
      cout s' = cout s @ header_line (int32_wrap (currentTime s + 1)) #
                  map pcb_line (sort_key pid (observed timeQuantum s)))"
proof -
  have a: "snd (printProcessStates ps t out) = out @ header_line t # map pcb_line (sort_key pid ps)"
    for ps t out by (simp add: printProcessStates_def)
  have b: "snd (printProcessStates ps' t out) = snd (printProcessStates ps t out)"
    if "distinct (map pid ps)" "mset ps' = mset ps"
    using sort_key_perm_distinct[OF that] by (simp add: a)
  have c: "cout s' = cout s @ header_line (int32_wrap (currentTime s + 1)) #
                  map pcb_line (sort_key pid (observed timeQuantum s))"
    if "tick timeQuantum s = Inr s'"
    using tick_cout[OF that] by (simp add: a)
  from a b c show ?thesis by simp
qed

theorem C7_trace_block_witness:
  "distinct (map pid [mk_PCB 2 2, mk_PCB 1 3]) \<and>
   mset [mk_PCB 1 3, mk_PCB 2 2] = mset [mk_PCB 2 2, mk_PCB 1 3] \<and>
   fst (printProcessStates [mk_PCB 2 2, mk_PCB 1 3] 7 []) = [mk_PCB 2 2, mk_PCB 1 3] \<and>
   snd (printProcessStates [mk_PCB 2 2, mk_PCB 1 3] 7 []) =
     [''Interrupt 7:'', ''PID 1: Ready, at pc 0'', ''PID 2: Ready, at pc 0''] \<and>
   snd (printProcessStates [mk_PCB 1 3, mk_PCB 2 2] 7 []) =
     snd (printProcessStates [mk_PCB 2 2, mk_PCB 1 3] 7 []) \<and>
   (\<exists>s'. tick 2 (init_sim [mk_PCB 2 2, mk_PCB 1 3] []) = Inr s' \<and>
      cout s' = [''Interrupt 1:'', ''PID 1: Ready, at pc 0'', ''PID 2: Terminated, at pc 2''])"
proof -
  let ?P = "[mk_PCB 2 2, mk_PCB 1 3]"
  let ?P' = "[mk_PCB 1 3, mk_PCB 2 2]"
  have d: "distinct (map pid ?P)" by (simp add: mk_PCB_def)
  have m: "mset ?P' = mset ?P" by (simp add: add.commute)
  obtain s' where s': "tick 2 (init_sim ?P []) = Inr s'"
    using queue_covers_tick[OF queue_covers_init] by blast
  note c = C7_trace_block[of ?P 7 "[]" ?P' 2 "init_sim ?P []" s']
  have e1: "header_line 7 # map pcb_line (sort_key pid ?P) =
      [''Interrupt 7:'', ''PID 1: Ready, at pc 0'', ''PID 2: Ready, at pc 0'']"
    by code_simp
  have e2: "header_line (int32_wrap (currentTime (init_sim ?P []) + 1)) #
      map pcb_line (sort_key pid (observed 2 (init_sim ?P []))) =
      [''Interrupt 1:'', ''PID 1: Ready, at pc 0'', ''PID 2: Terminated, at pc 2'']"
    by code_simp
  have e3: "cout (init_sim ?P []) = []" by (simp add: init_sim_def)
  from c d m s' e1 e2 e3 show ?thesis by simp
qed

subsection \<open>Ingestion\<close>

lemma extract_int_tok_val:
  "extract_int inp = (case tok_val inp of None \<Rightarrow> None | Some v \<Rightarrow> Some (v, tl inp))"
  by (cases inp rule: extract_int.cases) (simp_all add: tok_val_def)





lemma read_entries_result:
  assumes "read_entries n inp acc pids = Inr ps"
    and "pid ` set acc \<subseteq> pids" and "distinct (map pid acc)"
    and "list_all (\<lambda>p. state p = ''Ready'' \<and> pc p = 0 \<and> 0 < total_work p) acc"
  shows "length ps = length acc + n \<and> distinct (map pid ps) \<and>
         list_all (\<lambda>p. state p = ''Ready'' \<and> pc p = 0 \<and> 0 < total_work p) ps"
  using assms
proof (induction n arbitrary: inp acc pids)
  case 0
  then show ?case by simp
next
  case (Suc n)
  from Suc.prems(1) obtain p inp1 w inp2 where
    e: "extract_int inp = Some (p, inp1)" "extract_int inp1 = Some (w, inp2)"
      "\<not> w \<le> 0" "p \<notin> pids"
      "read_entries n inp2 (acc @ [mk_PCB p w]) (insert p pids) = Inr ps"
    by (auto split: option.splits if_splits)
  have "length ps = length (acc @ [mk_PCB p w]) + n \<and> distinct (map pid ps) \<and>
         list_all (\<lambda>p. state p = ''Ready'' \<and> pc p = 0 \<and> 0 < total_work p) ps"
  proof (rule Suc.IH[OF e(5)])
    show "pid ` set (acc @ [mk_PCB p w]) \<subseteq> insert p pids"
      using Suc.prems(2) by (auto simp: mk_PCB_def)
    show "distinct (map pid (acc @ [mk_PCB p w]))"
      using Suc.prems(2,3) e(4) by (auto simp: mk_PCB_def)
    show "list_all (\<lambda>p. state p = ''Ready'' \<and> pc p = 0 \<and> 0 < total_work p) (acc @ [mk_PCB p w])"
      using Suc.prems(4) e(3) by (simp add: mk_PCB_def)
  qed
  then show ?case by simp
qed

subsection \<open>The whole program\<close>

lemma main_cases:
  "main inp =
     (case tok_val inp of
        None \<Rightarrow> Some (Inr (failure ''Error: Invalid input for number of processes''))
      | Some N \<Rightarrow>
          if N \<le> 0 then Some (Inr (failure ''Error: Invalid number of processes''))
          else (case read_entries (nat N) (tl inp) [] {} of
                  Inl msg \<Rightarrow> Some (Inr (failure msg))
                | Inr ps \<Rightarrow>
                    (case kernelSimulator ps 2 [] of
                       None \<Rightarrow> None
                     | Some (Inl e) \<Rightarrow> Some (Inl e)
                     | Some (Inr s) \<Rightarrow>
                         Some (Inr \<lparr>exit_status = 0,
                                    stdout = cout s @ [''All processes completed.''],
                                    stderr = []\<rparr>))))"
  by (simp add: main_def extract_int_tok_val Let_def split: option.splits sum.splits)

lemma read_entries_valid:
  assumes "read_entries n inp [] {} = Inr ps" and "0 < n"
  shows "valid_pcbs ps"
  using read_entries_result[OF assms(1)] assms(2) by (auto simp: valid_pcbs_def)


lemma read_entries_accepts:
  assumes "distinct (map fst es)" and "fst ` set es \<inter> pids = {}"
    and "\<forall>(p, w) \<in> set es. INT_MIN \<le> p \<and> p \<le> INT_MAX \<and> 0 < w \<and> w \<le> INT_MAX"
  shows "read_entries (length es) (entry_tokens es @ rest) acc pids =
           Inr (acc @ map (\<lambda>(p, w). mk_PCB p w) es)"
  using assms
proof (induction es arbitrary: acc pids)
  case Nil
  then show ?case by (simp add: entry_tokens_def)
next
  case (Cons e es)
  obtain p w where e: "e = (p, w)" by (cases e)
  have tokens: "entry_tokens (e # es) @ rest = Numeral p # Numeral w # entry_tokens es @ rest"
    by (simp add: entry_tokens_def e)
  from Cons.prems e have r: "INT_MIN \<le> p" "p \<le> INT_MAX" "0 < w" "w \<le> INT_MAX" "p \<notin> pids"
    by auto
  have "INT_MIN \<le> w" using r(3) by (simp add: INT_MIN_def)
  with r have step: "read_entries (length (e # es)) (entry_tokens (e # es) @ rest) acc pids =
      read_entries (length es) (entry_tokens es @ rest) (acc @ [mk_PCB p w]) (insert p pids)"
    by (simp add: tokens)
  have "read_entries (length es) (entry_tokens es @ rest) (acc @ [mk_PCB p w]) (insert p pids) =
      Inr ((acc @ [mk_PCB p w]) @ map (\<lambda>(p, w). mk_PCB p w) es)"
  proof (rule Cons.IH)
    show "distinct (map fst es)" using Cons.prems(1) by simp
    show "fst ` set es \<inter> insert p pids = {}" using Cons.prems(1,2) e by auto
    show "\<forall>(p, w) \<in> set es. INT_MIN \<le> p \<and> p \<le> INT_MAX \<and> 0 < w \<and> w \<le> INT_MAX"
      using Cons.prems(3) by simp
  qed
  with step e show ?case by simp
qed

text \<open>
  Claim C10. Take any non-empty list of entries whose count and whose work values are
  valid (the count fits an \<open>int\<close>, every work is positive and fits an \<open>int\<close>) and whose pids
  are pairwise distinct values of the \<open>int\<close> range, with no other condition on the pids:
  zero and negative pids included. Whatever follows the entries in the input, the program
  accepts it, runs the simulation on the records in input order with those pids, leaves
  every record Terminated and exits with status 0 after the closing line.
\<close>

theorem C10_pid_unconstrained:
  assumes "es \<noteq> []" and "int (length es) \<le> INT_MAX" and "distinct (map fst es)"
    and "\<forall>(p, w) \<in> set es. INT_MIN \<le> p \<and> p \<le> INT_MAX \<and> 0 < w \<and> w \<le> INT_MAX"
  shows "\<exists>s. main (Numeral (int (length es)) # entry_tokens es @ rest) =
                Some (Inr \<lparr>exit_status = 0,
                           stdout = cout s @ [''All processes completed.''],
                           stderr = []\<rparr>) \<and>
              kernelSimulator (map (\<lambda>(p, w). mk_PCB p w) es) 2 [] = Some (Inr s) \<and>
              map pid (pcbs s) = map fst es \<and>
              list_all (\<lambda>p. state p = ''Terminated'') (pcbs s)"
proof -
  let ?inp = "Numeral (int (length es)) # entry_tokens es @ rest"
  let ?ps = "map (\<lambda>(p, w). mk_PCB p w) es"
  have n: "0 < length es" using assms(1) by simp
  have tv: "tok_val ?inp = Some (int (length es))"
    using assms(2) by (simp add: tok_val_def INT_MIN_def)
  have rd: "read_entries (length es) (entry_tokens es @ rest) [] {} = Inr ?ps"
    using read_entries_accepts[OF assms(3) _ assms(4), of "{}" rest "[]"] by simp
  have v: "valid_pcbs ?ps" by (rule read_entries_valid[OF rd n])
  from valid_run[OF v, of "[]"] obtain s where
    s: "kernelSimulator ?ps 2 [] = Some (Inr s)" "length (pcbs s) = length ?ps"
      "\<forall>i < length ?ps. state (pcbs s ! i) = ''Terminated'' \<and>
           pc (pcbs s ! i) = total_work (?ps ! i) \<and> pid (pcbs s ! i) = pid (?ps ! i) \<and>
           total_work (pcbs s ! i) = total_work (?ps ! i)"
    by blast
  have m: "main ?inp = Some (Inr \<lparr>exit_status = 0,
      stdout = cout s @ [''All processes completed.''], stderr = []\<rparr>)"
    using tv n rd s(1) by (simp add: main_cases)
  have pids: "map pid (pcbs s) = map fst es"
  proof (rule nth_equalityI)
    show "length (map pid (pcbs s)) = length (map fst es)" using s(2) by simp
    fix i assume "i < length (map pid (pcbs s))"
    then have i: "i < length es" using s(2) by simp
    then have "pid (pcbs s ! i) = pid (?ps ! i)" using s(3) by simp
    also have "\<dots> = fst (es ! i)" using i by (simp add: mk_PCB_def split: prod.splits)
    finally show "map pid (pcbs s) ! i = map fst es ! i" using i s(2) by simp
  qed
  have "list_all (\<lambda>p. state p = ''Terminated'') (pcbs s)"
    using s(2,3) by (simp add: list_all_length)
  with m s(1) pids show ?thesis by blast
qed

theorem C10_pid_unconstrained_witness:
  "[(0, 1), (- 5, 3)] \<noteq> ([] :: (int \<times> int) list) \<and>
   int (length [(0 :: int, 1 :: int), (- 5, 3)]) \<le> INT_MAX \<and>
   distinct (map fst [(0 :: int, 1 :: int), (- 5, 3)]) \<and>
   (INT_MIN \<le> 0 \<and> 0 \<le> INT_MAX \<and> (0 :: int) < 1 \<and> 1 \<le> INT_MAX) \<and>
   (INT_MIN \<le> - 5 \<and> - 5 \<le> INT_MAX \<and> (0 :: int) < 3 \<and> 3 \<le> INT_MAX) \<and>
   Numeral (int (length [(0 :: int, 1 :: int), (- 5, 3)])) #
     entry_tokens [(0, 1), (- 5, 3)] @ [] =
     [Numeral 2, Numeral 0, Numeral 1, Numeral (- 5), Numeral 3] \<and>
   (\<exists>s. main (Numeral (int (length [(0 :: int, 1 :: int), (- 5, 3)])) #
                 entry_tokens [(0, 1), (- 5, 3)] @ []) =
           Some (Inr \<lparr>exit_status = 0,
                      stdout = cout s @ [''All processes completed.''],
                      stderr = []\<rparr>) \<and>
         kernelSimulator (map (\<lambda>(p, w). mk_PCB p w) [(0, 1), (- 5, 3)]) 2 [] = Some (Inr s) \<and>
         map pid (pcbs s) = map fst [(0 :: int, 1 :: int), (- 5, 3)] \<and>
         list_all (\<lambda>p. state p = ''Terminated'') (pcbs s)) \<and>
   main [Numeral 2, Numeral 0, Numeral 1, Numeral (- 5), Numeral 3] =
     Some (Inr \<lparr>exit_status = 0,
                stdout =
                  [''Interrupt 1:'',
                   ''PID -5: Ready, at pc 0'',
                   ''PID 0: Terminated, at pc 1'',
                   ''Interrupt 2:'',
                   ''PID -5: Running, at pc 2'',
                   ''PID 0: Terminated, at pc 1'',
                   ''Interrupt 3:'',
                   ''PID -5: Terminated, at pc 3'',
                   ''PID 0: Terminated, at pc 1'',
                   ''All processes completed.''],
                stderr = []\<rparr>)"
proof -
  let ?es = "[(0 :: int, 1 :: int), (- 5, 3)]"
  have h1: "?es \<noteq> []" by simp
  have h2: "int (length ?es) \<le> INT_MAX" by (simp add: INT_MAX_def)
  have h3: "distinct (map fst ?es)" by simp
  have h4: "\<forall>(p, w) \<in> set ?es. INT_MIN \<le> p \<and> p \<le> INT_MAX \<and> 0 < w \<and> w \<le> INT_MAX"
    by (simp add: INT_MIN_def INT_MAX_def)
  have r1: "INT_MIN \<le> 0 \<and> 0 \<le> INT_MAX \<and> (0 :: int) < 1 \<and> 1 \<le> INT_MAX"
    by (simp add: INT_MIN_def INT_MAX_def)
  have r2: "INT_MIN \<le> - 5 \<and> - 5 \<le> INT_MAX \<and> (0 :: int) < 3 \<and> 3 \<le> INT_MAX"
    by (simp add: INT_MIN_def INT_MAX_def)
  have t: "Numeral (int (length ?es)) # entry_tokens ?es @ [] =
      [Numeral 2, Numeral 0, Numeral 1, Numeral (- 5), Numeral 3]"
    by (simp add: entry_tokens_def)
  note c = C10_pid_unconstrained[OF h1 h2 h3 h4, of "[]"]
  have e: "main [Numeral 2, Numeral 0, Numeral 1, Numeral (- 5), Numeral 3] =
     Some (Inr \<lparr>exit_status = 0,
                stdout =
                  [''Interrupt 1:'',
                   ''PID -5: Ready, at pc 0'',
                   ''PID 0: Terminated, at pc 1'',
                   ''Interrupt 2:'',
                   ''PID -5: Running, at pc 2'',
                   ''PID 0: Terminated, at pc 1'',
                   ''Interrupt 3:'',
                   ''PID -5: Terminated, at pc 3'',
                   ''PID 0: Terminated, at pc 1'',
                   ''All processes completed.''],
                stderr = []\<rparr>)"
    by code_simp
  show ?thesis
    by (rule conjI[OF h1 conjI[OF h2 conjI[OF h3 conjI[OF r1 conjI[OF r2 conjI[OF t conjI[OF c e]]]]]]])
qed

subsection \<open>FIFO dispatch\<close>

lemma map_eq_nth:
  "map f xs = map f ys \<Longrightarrow> i < length xs \<Longrightarrow> f (xs ! i) = f (ys ! i)"
  by (metis length_map nth_map)

lemma tick_same_work:
  assumes sw: "same_work s1 s2"
  shows "(\<exists>e. tick tq s1 = Inl e \<and> tick tq s2 = Inl e) \<or>
         (\<exists>a b. tick tq s1 = Inr a \<and> tick tq s2 = Inr b \<and> same_work a b)"
proof (cases "readyQueue s1")
  case Nil
  with sw have "readyQueue s2 = []" by (simp add: same_work_def)
  with Nil sw show ?thesis by (simp add: tick_Nil same_work_def)
next
  case (Cons i q)
  with sw have q2: "readyQueue s2 = i # q" by (simp add: same_work_def)
  from sw have len: "length (pcbs s1) = length (pcbs s2)"
    by (metis same_work_def length_map)
  show ?thesis
  proof (cases "i < length (pcbs s1)")
    case False
    with Cons q2 len show ?thesis by (simp add: tick_fault)
  next
    case True
    with len have i2: "i < length (pcbs s2)" by simp
    let ?p1 = "pcbs s1 ! i" and ?p2 = "pcbs s2 ! i"
    from sw True have eq: "state ?p1 = state ?p2" "pc ?p1 = pc ?p2" "total_work ?p1 = total_work ?p2"
      by (auto simp: same_work_def intro: map_eq_nth)
    have r: "pc (run_slice tq ?p1) = pc (run_slice tq ?p2)"
      "state (run_slice tq ?p1) = state (run_slice tq ?p2)"
      using eq by (simp_all add: run_slice_pc run_slice_state)
    from sw r eq show ?thesis
      by (simp add: tick_Cons[OF Cons True] tick_Cons[OF q2 i2] same_work_def map_update)
  qed
qed

lemma dispatches_same_work:
  "same_work s1 s2 \<Longrightarrow> dispatches n tq s1 = dispatches n tq s2"
proof (induction n arbitrary: s1 s2)
  case 0
  then show ?case by simp
next
  case (Suc n)
  from Suc.prems have q: "readyQueue s1 = readyQueue s2" by (simp add: same_work_def)
  from tick_same_work[OF Suc.prems, of tq] show ?case
  proof (elim disjE exE conjE)
    fix e assume "tick tq s1 = Inl e" "tick tq s2 = Inl e"
    with q show ?thesis by simp
  next
    fix a b assume "tick tq s1 = Inr a" "tick tq s2 = Inr b" "same_work a b"
    with q Suc.IH[of a b] show ?thesis by simp
  qed
qed

lemma read_entries_order:
  "read_entries n inp acc pids = Inr ps \<Longrightarrow>
   ps = acc @ map (\<lambda>(a, b). mk_PCB (the a) (the b)) (token_pairs n inp)"
proof (induction n arbitrary: inp acc pids)
  case 0
  then show ?case by simp
next
  case (Suc n)
  have tl2: "tl (tl inp) = drop 2 inp" by (simp add: drop_Suc numeral_2_eq_2 drop_tl)
  from Suc.prems obtain p w where
    e: "tok_val inp = Some p" "tok_val (tl inp) = Some w"
      "read_entries n (drop 2 inp) (acc @ [mk_PCB p w]) (insert p pids) = Inr ps"
    by (auto simp: extract_int_tok_val tl2 split: option.splits if_splits)
  from Suc.IH[OF e(3)] e(1,2) show ?case by simp
qed

lemma tick_head:
  assumes q: "readyQueue s = i # q" and i: "i < length (pcbs s)"
  shows "\<exists>s'. tick tq s = Inr s' \<and> dispatches 1 tq s = [i] \<and>
              readyQueue s' = (if state (pcbs s' ! i) \<noteq> ''Terminated'' then q @ [i] else q) \<and>
              (\<forall>j. j \<noteq> i \<longrightarrow> pcbs s' ! j = pcbs s ! j)"
proof (cases "pc (run_slice tq (pcbs s ! i)) < total_work (pcbs s ! i)")
  case True
  with i show ?thesis by (simp add: tick_Cons[OF q i] q)
next
  case False
  then have "state (run_slice tq (pcbs s ! i)) = ''Terminated''"
    by (simp add: run_slice_state run_slice_pc)
  with False i show ?thesis by (simp add: tick_Cons[OF q i] q)
qed

text \<open>
  Claim C4. The ready queue is a FIFO of vector indices. It starts as \<open>0, 1, \<dots>, N - 1\<close>,
  and the vector holds the records in the order in which the entries arrive in the input.
  A tick dequeues the head of the queue, the index enqueued earliest among those queued,
  whatever the records contain; it changes no other record; if the dispatched process is
  not Terminated after its slice it is appended at the tail, otherwise the queue is just
  the old tail. The sequence of dispatches is the same for any two vectors that agree on
  state, progress and work: pids play no part in it.
\<close>

theorem C4_fifo:
  "readyQueue (init_sim ps out) = [0..<length ps] \<and>
   (read_entries n inp [] {} = Inr ps \<longrightarrow>
      ps = map (\<lambda>(a, b). mk_PCB (the a) (the b)) (token_pairs n inp)) \<and>
   (readyQueue s = i # q \<and> i < length (pcbs s) \<longrightarrow>
      (\<exists>s'. tick timeQuantum s = Inr s' \<and> dispatches 1 timeQuantum s = [i] \<and>
            readyQueue s' = (if state (pcbs s' ! i) \<noteq> ''Terminated'' then q @ [i] else q) \<and>
            (\<forall>j. j \<noteq> i \<longrightarrow> pcbs s' ! j = pcbs s ! j))) \<and>
   (map state ps' = map state ps \<and> map pc ps' = map pc ps \<and>
    map total_work ps' = map total_work ps \<longrightarrow>
      dispatches k timeQuantum (init_sim ps' out') = dispatches k timeQuantum (init_sim ps out))"
proof -
  have a: "readyQueue (init_sim ps out) = [0..<length ps]" by (simp add: init_sim_def)
  have b: "ps = map (\<lambda>(a, b). mk_PCB (the a) (the b)) (token_pairs n inp)"
    if "read_entries n inp [] {} = Inr ps"
    using read_entries_order[OF that] by simp
  have d: "dispatches k timeQuantum (init_sim ps' out') = dispatches k timeQuantum (init_sim ps out)"
    if "map state ps' = map state ps" "map pc ps' = map pc ps"
      "map total_work ps' = map total_work ps"
  proof (rule dispatches_same_work)
    have "length ps' = length ps" using that(1) by (metis length_map)
    with that show "same_work (init_sim ps' out') (init_sim ps out)"
      by (simp add: same_work_def init_sim_def)
  qed
  from a b d tick_head[of s i q timeQuantum] show ?thesis by blast
qed

theorem C4_fifo_witness:
  "read_entries 2 [Numeral 9, Numeral 3, Numeral 4, Numeral 2] [] {} =
     Inr [mk_PCB 9 3, mk_PCB 4 2] \<and>
   [mk_PCB 9 3, mk_PCB 4 2] =
     map (\<lambda>(a, b). mk_PCB (the a) (the b))
       (token_pairs 2 [Numeral 9, Numeral 3, Numeral 4, Numeral 2]) \<and>
   readyQueue (init_sim [mk_PCB 9 3, mk_PCB 4 2] []) = [0, 1] \<and>
   0 < length (pcbs (init_sim [mk_PCB 9 3, mk_PCB 4 2] [])) \<and>
   (\<exists>s'. tick 2 (init_sim [mk_PCB 9 3, mk_PCB 4 2] []) = Inr s' \<and>
         dispatches 1 2 (init_sim [mk_PCB 9 3, mk_PCB 4 2] []) = [0] \<and>
         readyQueue s' = (if state (pcbs s' ! 0) \<noteq> ''Terminated'' then [1] @ [0] else [1])) \<and>
   map state [mk_PCB 1 3, mk_PCB 2 2] = map state [mk_PCB 9 3, mk_PCB 4 2] \<and>
   map pc [mk_PCB 1 3, mk_PCB 2 2] = map pc [mk_PCB 9 3, mk_PCB 4 2] \<and>
   map total_work [mk_PCB 1 3, mk_PCB 2 2] = map total_work [mk_PCB 9 3, mk_PCB 4 2] \<and>
   dispatches 3 2 (init_sim [mk_PCB 1 3, mk_PCB 2 2] []) =
     dispatches 3 2 (init_sim [mk_PCB 9 3, mk_PCB 4 2] []) \<and>
   dispatches 3 2 (init_sim [mk_PCB 9 3, mk_PCB 4 2] []) = [0, 1, 0]"
proof -
  let ?P = "[mk_PCB 9 3, mk_PCB 4 2]"
  let ?P' = "[mk_PCB 1 3, mk_PCB 2 2]"
  let ?inp = "[Numeral 9, Numeral 3, Numeral 4, Numeral 2]"
  have h1: "read_entries 2 ?inp [] {} = Inr ?P" by code_simp
  have h2: "readyQueue (init_sim ?P []) = 0 # [1]" by (simp add: init_sim_def)
  have h2': "0 < length (pcbs (init_sim ?P []))" by (simp add: init_sim_def)
  have h3: "map state ?P' = map state ?P" by (simp add: mk_PCB_def)
  have h4: "map pc ?P' = map pc ?P" by (simp add: mk_PCB_def)
  have h5: "map total_work ?P' = map total_work ?P" by (simp add: mk_PCB_def)
  note c = C4_fifo[where ps = ?P and out = "[]" and n = 2 and inp = ?inp
      and s = "init_sim ?P []" and i = 0 and q = "[1]" and timeQuantum = 2
      and ps' = ?P' and k = 3 and out' = "[]"]
  from c h1 have a: "?P = map (\<lambda>(a, b). mk_PCB (the a) (the b)) (token_pairs 2 ?inp)"
    by blast
  from c h2 h2' have b: "\<exists>s'. tick 2 (init_sim ?P []) = Inr s' \<and>
         dispatches 1 2 (init_sim ?P []) = [0] \<and>
         readyQueue s' = (if state (pcbs s' ! 0) \<noteq> ''Terminated'' then [1] @ [0] else [1])"
    by blast
  from c h3 h4 h5 have d: "dispatches 3 2 (init_sim ?P' []) = dispatches 3 2 (init_sim ?P [])"
    by blast
  have e: "dispatches 3 2 (init_sim ?P []) = [0, 1, 0]" by code_simp
  have h2s: "readyQueue (init_sim ?P []) = [0, 1]" using h2 by simp
  show ?thesis
    by (rule conjI[OF h1 conjI[OF a conjI[OF h2s conjI[OF h2' conjI[OF b conjI[OF h3
          conjI[OF h4 conjI[OF h5 conjI[OF d e]]]]]]]]])
qed

subsection \<open>One dispatch per tick\<close>

lemma sched_inv_not_Running:
  assumes "sched_inv s" and "j < length (pcbs s)"
  shows "state (pcbs s ! j) \<noteq> ''Running''"
  using assms by (auto simp: sched_inv_def split: if_splits)

lemma tick_vs_observed:
  assumes inv: "sched_inv s0" and t: "tick tq s0 = Inr s" and j: "j < length (pcbs s0)"
  shows "pc (pcbs s ! j) = pc (observed tq s0 ! j) \<and>
         state (pcbs s ! j) =
           (if state (observed tq s0 ! j) = ''Running'' then ''Ready''
            else state (observed tq s0 ! j))"
proof (cases "readyQueue s0")
  case Nil
  with t sched_inv_not_Running[OF inv j] show ?thesis
    by (auto simp: tick_Nil observed_def)
next
  case (Cons i q)
  note h = sched_inv_head[OF inv Cons]
  let ?cur = "run_slice tq (pcbs s0 ! i)"
  show ?thesis
  proof (cases "j = i")
    case False
    with t tick_Cons[OF Cons h(1), of tq] Cons sched_inv_not_Running[OF inv j] show ?thesis
      by (auto simp: observed_def)
  next
    case True
    have obs: "observed tq s0 ! j = ?cur" using True Cons h(1) by (simp add: observed_def)
    show ?thesis
    proof (cases "pc ?cur < total_work (pcbs s0 ! i)")
      case True
      then have "state ?cur = ''Running''" by (simp add: run_slice_state run_slice_pc)
      with True t tick_Cons[OF Cons h(1), of tq] \<open>j = i\<close> h(1) obs show ?thesis by auto
    next
      case False
      then have "state ?cur = ''Terminated''" by (simp add: run_slice_state run_slice_pc)
      with False t tick_Cons[OF Cons h(1), of tq] \<open>j = i\<close> h(1) obs show ?thesis by auto
    qed
  qed
qed

lemma single_dispatch:
  assumes v: "valid_pcbs ps" and tq: "0 < tq"
    and n: "ticks n tq (init_sim ps out) = Inr s"
    and nt: "\<not> allProcessesTerminated (pcbs s)"
  shows "\<exists>i q. readyQueue s = i # q \<and> i < length ps \<and>
           state (pcbs s ! i) = ''Ready'' \<and>
           (state (trace_at tq (init_sim ps out) n ! i) = ''Running'' \<or>
            state (trace_at tq (init_sim ps out) n ! i) = ''Terminated'') \<and>
           pc (pcbs s ! i) < pc (trace_at tq (init_sim ps out) n ! i) \<and>
           (\<forall>j < length ps. j \<noteq> i \<longrightarrow> trace_at tq (init_sim ps out) n ! j = pcbs s ! j) \<and>
           (0 < n \<longrightarrow>
              (\<forall>j < length ps. j \<noteq> i \<longrightarrow>
                 pc (trace_at tq (init_sim ps out) n ! j) =
                   pc (trace_at tq (init_sim ps out) (n - 1) ! j) \<and>
                 state (trace_at tq (init_sim ps out) n ! j) =
                   (if state (trace_at tq (init_sim ps out) (n - 1) ! j) = ''Running''
                    then ''Ready''
                    else state (trace_at tq (init_sim ps out) (n - 1) ! j))))"
proof -
  let ?s0 = "init_sim ps out"
  have inv0: "sched_inv ?s0" using v by (rule sched_inv_init)
  from sched_inv_ticks[OF inv0 tq, of n] n have inv: "sched_inv s" by auto
  have len: "length (pcbs s) = length ps"
    using ticks_static(1)[OF n] by (simp add: init_sim_def)
  from sched_inv_nonempty[OF inv nt] obtain i q where q: "readyQueue s = i # q"
    by (cases "readyQueue s") auto
  note h = sched_inv_head[OF inv q]
  have tr: "trace_at tq ?s0 n = (pcbs s)[i := run_slice tq (pcbs s ! i)]"
    using n q by (simp add: trace_at_def observed_def)
  have a: "state (trace_at tq ?s0 n ! i) = ''Running'' \<or> state (trace_at tq ?s0 n ! i) = ''Terminated''"
    using h(1) by (simp add: tr run_slice_state)
  have b: "pc (pcbs s ! i) < pc (trace_at tq ?s0 n ! i)"
    using h(1) run_slice_record_ok(2)[OF h(5,6) tq] by (simp add: tr)
  have c: "\<forall>j < length ps. j \<noteq> i \<longrightarrow> trace_at tq ?s0 n ! j = pcbs s ! j"
    by (simp add: tr)
  have d: "\<forall>j < length ps. j \<noteq> i \<longrightarrow>
      pc (trace_at tq ?s0 n ! j) = pc (trace_at tq ?s0 (n - 1) ! j) \<and>
      state (trace_at tq ?s0 n ! j) =
        (if state (trace_at tq ?s0 (n - 1) ! j) = ''Running'' then ''Ready''
         else state (trace_at tq ?s0 (n - 1) ! j))" if "0 < n"
  proof -
    from that obtain m where m: "n = Suc m" by (cases n) auto
    from n obtain s1 where s1: "ticks m tq ?s0 = Inr s1" "tick tq s1 = Inr s"
      unfolding m ticks_snoc by (auto split: sum.splits)
    from sched_inv_ticks[OF inv0 tq, of m] s1(1) have inv1: "sched_inv s1" by auto
    have len1: "length (pcbs s1) = length ps"
      using ticks_static(1)[OF s1(1)] by (simp add: init_sim_def)
    have prev: "trace_at tq ?s0 (n - 1) = observed tq s1"
      using s1(1) m by (simp add: trace_at_def)
    show ?thesis
    proof (intro allI impI)
      fix j assume j: "j < length ps" "j \<noteq> i"
      then have "j < length (pcbs s1)" using len1 by simp
      from tick_vs_observed[OF inv1 s1(2) this] j(2)
      show "pc (trace_at tq ?s0 n ! j) = pc (trace_at tq ?s0 (n - 1) ! j) \<and>
        state (trace_at tq ?s0 n ! j) =
          (if state (trace_at tq ?s0 (n - 1) ! j) = ''Running'' then ''Ready''
           else state (trace_at tq ?s0 (n - 1) ! j))"
        unfolding prev by (simp add: tr)
    qed
  qed
  from q h(1) h(4) len a b c d show ?thesis by auto
qed

text \<open>
  Claim C5, as stated, fails. On the valid vector of scenario A the second tick dispatches
  index 1 only, yet between the trace of tick 1 and the trace of tick 2 the records at both
  indices change state: index 1 goes from Ready to Terminated, and index 0, which was not
  dispatched, goes from Running to Ready, because the requeue step resets it after the
  trace of tick 1 has been written.
\<close>

theorem C5_counterexample:
  "valid_pcbs [mk_PCB 1 3, mk_PCB 2 2] \<and>
   dispatches 2 2 (init_sim [mk_PCB 1 3, mk_PCB 2 2] []) = [0, 1] \<and>
   changed_states (trace_at 2 (init_sim [mk_PCB 1 3, mk_PCB 2 2] []) 0)
                  (trace_at 2 (init_sim [mk_PCB 1 3, mk_PCB 2 2] []) 1) = [0, 1]"
  by code_simp

text \<open>
  Claim C5, amended. For every tick of a run on a valid vector with quantum 2, exactly one
  record, the dispatched one, is changed by the tick: it was Ready when the tick began, is
  traced as Running or Terminated, and its progress has grown; every other record is
  traced exactly as it stood when the tick began. Compared with the prior tick's trace,
  every other record has the same progress and the same state, except that a record
  which the prior trace showed as Running is now shown as Ready.
\<close>

theorem C5_single_dispatch:
  assumes "valid_pcbs ps"
    and "ticks n 2 (init_sim ps out) = Inr s"
    and "\<not> allProcessesTerminated (pcbs s)"
  shows "\<exists>i q. readyQueue s = i # q \<and> i < length ps \<and>
           state (pcbs s ! i) = ''Ready'' \<and>
           (state (trace_at 2 (init_sim ps out) n ! i) = ''Running'' \<or>
            state (trace_at 2 (init_sim ps out) n ! i) = ''Terminated'') \<and>
           pc (pcbs s ! i) < pc (trace_at 2 (init_sim ps out) n ! i) \<and>
           (\<forall>j < length ps. j \<noteq> i \<longrightarrow> trace_at 2 (init_sim ps out) n ! j = pcbs s ! j) \<and>
           (0 < n \<longrightarrow>
              (\<forall>j < length ps. j \<noteq> i \<longrightarrow>
                 pc (trace_at 2 (init_sim ps out) n ! j) =
                   pc (trace_at 2 (init_sim ps out) (n - 1) ! j) \<and>
                 state (trace_at 2 (init_sim ps out) n ! j) =
                   (if state (trace_at 2 (init_sim ps out) (n - 1) ! j) = ''Running''
                    then ''Ready''
                    else state (trace_at 2 (init_sim ps out) (n - 1) ! j))))"
  by (rule single_dispatch[OF assms(1) _ assms(2,3)]) simp

theorem C5_single_dispatch_witness:
  "valid_pcbs [mk_PCB 1 3, mk_PCB 2 2] \<and>
   map state (trace_at 2 (init_sim [mk_PCB 1 3, mk_PCB 2 2] []) 0) = [''Running'', ''Ready''] \<and>
   map state (trace_at 2 (init_sim [mk_PCB 1 3, mk_PCB 2 2] []) 1) = [''Ready'', ''Terminated''] \<and>
   (\<exists>s. ticks 1 2 (init_sim [mk_PCB 1 3, mk_PCB 2 2] []) = Inr s \<and>
        \<not> allProcessesTerminated (pcbs s) \<and>
        (\<exists>i q. readyQueue s = i # q \<and> i < length [mk_PCB 1 3, mk_PCB 2 2] \<and>
           state (pcbs s ! i) = ''Ready'' \<and>
           (state (trace_at 2 (init_sim [mk_PCB 1 3, mk_PCB 2 2] []) 1 ! i) = ''Running'' \<or>
            state (trace_at 2 (init_sim [mk_PCB 1 3, mk_PCB 2 2] []) 1 ! i) = ''Terminated'') \<and>
           pc (pcbs s ! i) < pc (trace_at 2 (init_sim [mk_PCB 1 3, mk_PCB 2 2] []) 1 ! i) \<and>
           (\<forall>j < length [mk_PCB 1 3, mk_PCB 2 2]. j \<noteq> i \<longrightarrow>
              trace_at 2 (init_sim [mk_PCB 1 3, mk_PCB 2 2] []) 1 ! j = pcbs s ! j) \<and>
           ((0 :: nat) < 1 \<longrightarrow>
              (\<forall>j < length [mk_PCB 1 3, mk_PCB 2 2]. j \<noteq> i \<longrightarrow>
                 pc (trace_at 2 (init_sim [mk_PCB 1 3, mk_PCB 2 2] []) 1 ! j) =
                   pc (trace_at 2 (init_sim [mk_PCB 1 3, mk_PCB 2 2] []) (1 - 1) ! j) \<and>
                 state (trace_at 2 (init_sim [mk_PCB 1 3, mk_PCB 2 2] []) 1 ! j) =
                   (if state (trace_at 2 (init_sim [mk_PCB 1 3, mk_PCB 2 2] []) (1 - 1) ! j) =
                       ''Running''
                    then ''Ready''
                    else state (trace_at 2 (init_sim [mk_PCB 1 3, mk_PCB 2 2] []) (1 - 1) ! j))))))"
proof -
  let ?A = "[mk_PCB 1 3, mk_PCB 2 2]"
  have v: "valid_pcbs ?A" by (simp add: valid_pcbs_def mk_PCB_def)
  have two: "(0::int) < 2" by simp
  obtain s where s: "ticks 1 2 (init_sim ?A []) = Inr s"
    using sched_inv_ticks[OF sched_inv_init[OF v] two, where n = 1] by blast
  from s have nt: "\<not> allProcessesTerminated (pcbs s)"
    by (auto simp: init_sim_def tick_def mk_PCB_def run_slice_def Let_def printProcessStates_def)
  have e0: "map state (trace_at 2 (init_sim ?A []) 0) = [''Running'', ''Ready'']" by code_simp
  have e1: "map state (trace_at 2 (init_sim ?A []) 1) = [''Ready'', ''Terminated'']" by code_simp
  note c = C5_single_dispatch[OF v s nt]
  have x: "\<exists>s. ticks 1 2 (init_sim ?A []) = Inr s \<and> \<not> allProcessesTerminated (pcbs s) \<and>
        (\<exists>i q. readyQueue s = i # q \<and> i < length ?A \<and>
           state (pcbs s ! i) = ''Ready'' \<and>
           (state (trace_at 2 (init_sim ?A []) 1 ! i) = ''Running'' \<or>
            state (trace_at 2 (init_sim ?A []) 1 ! i) = ''Terminated'') \<and>
           pc (pcbs s ! i) < pc (trace_at 2 (init_sim ?A []) 1 ! i) \<and>
           (\<forall>j < length ?A. j \<noteq> i \<longrightarrow> trace_at 2 (init_sim ?A []) 1 ! j = pcbs s ! j) \<and>
           ((0 :: nat) < 1 \<longrightarrow>
              (\<forall>j < length ?A. j \<noteq> i \<longrightarrow>
                 pc (trace_at 2 (init_sim ?A []) 1 ! j) =
                   pc (trace_at 2 (init_sim ?A []) (1 - 1) ! j) \<and>
                 state (trace_at 2 (init_sim ?A []) 1 ! j) =
                   (if state (trace_at 2 (init_sim ?A []) (1 - 1) ! j) = ''Running''
                    then ''Ready''
                    else state (trace_at 2 (init_sim ?A []) (1 - 1) ! j)))))"
    apply (intro exI[of _ s] conjI)
      apply (rule s)
     apply (rule nt)
    apply (rule c)
    done
  show ?thesis by (rule conjI[OF v conjI[OF e0 conjI[OF e1 x]]])
qed

subsection \<open>Ingestion of a text\<close>








end
